theory Spec2Isabelle
  imports Complex_Main "HOL-Library.Sublist" "HOL-Library.Multiset"
begin

section \<open>Strings\<close>

text \<open>
  JavaScript strings are modelled as \<^typ>\<open>string\<close>, one \<^typ>\<open>char\<close> per code unit, so the
  model covers the code units up to 255. The regular-expression class \<^verbatim>\<open>\s\<close> and
  \<^verbatim>\<open>String.prototype.trim\<close> use the same set of white-space characters; below 256 these
  are tab, line feed, vertical tab, form feed, carriage return, space and the no-break space.
\<close>

definition form_feed :: char where
  "form_feed = CHR 0x0C"

definition is_space :: "char \<Rightarrow> bool" where
  "is_space c = (of_char c \<in> {9::nat, 10, 11, 12, 13, 32, 160})"

text \<open>\<^verbatim>\<open>s.includes("\f")\<close>\<close>

definition includes_ff :: "string \<Rightarrow> bool" where
  "includes_ff s = (form_feed \<in> set s)"

text \<open>\<^verbatim>\<open>s.split("\f")\<close>: the fields between the separators; the empty string gives one empty field.\<close>

fun split_on :: "char \<Rightarrow> string \<Rightarrow> string list" where
  "split_on c [] = [[]]"
| "split_on c (x # xs) =
     (if x = c then [] # split_on c xs
      else (case split_on c xs of
              [] \<Rightarrow> [[x]]
            | w # ws \<Rightarrow> (x # w) # ws))"

text \<open>
  \<^verbatim>\<open>s.split(/\s+/)\<close>: the fields between the maximal runs of white space, with an empty
  field in front of a leading run and behind a trailing one.
\<close>

function split_ws :: "string \<Rightarrow> string list" where
  "split_ws s =
     (let w = takeWhile (\<lambda>c. \<not> is_space c) s;
          r = dropWhile (\<lambda>c. \<not> is_space c) s
      in if r = [] then [w] else w # split_ws (dropWhile is_space r))"
  by pat_completeness auto
termination
proof (relation "measure length")
  show "wf (measure length)" by simp
next
  fix s w r :: string
  assume r: "r = dropWhile (\<lambda>c. \<not> is_space c) s" and ne: "r \<noteq> []"
  have "length (dropWhile is_space r) < length r"
  proof (cases r)
    case Nil
    with ne show ?thesis by simp
  next
    case (Cons c cs)
    with r have "is_space c"
      by (metis hd_dropWhile list.sel(1) ne)
    with Cons show ?thesis
      by (simp add: le_imp_less_Suc length_dropWhile_le)
  qed
  moreover have "length r \<le> length s"
    unfolding r by (rule length_dropWhile_le)
  ultimately show "(dropWhile is_space r, s) \<in> measure length" by simp
qed

declare split_ws.simps [simp del]

text \<open>\<^verbatim>\<open>s.trim()\<close>\<close>

definition trim :: "string \<Rightarrow> string" where
  "trim s = rev (dropWhile is_space (rev (dropWhile is_space s)))"

text \<open>\<^verbatim>\<open>xs.join(sep)\<close>\<close>

fun join :: "string \<Rightarrow> string list \<Rightarrow> string" where
  "join sep [] = []"
| "join sep [x] = x"
| "join sep (x # y # ys) = x @ sep @ join sep (y # ys)"

text \<open>\<^verbatim>\<open>xs.slice(i, j)\<close> for indices \<open>0 \<le> i \<le> j\<close>.\<close>

definition slice :: "'a list \<Rightarrow> nat \<Rightarrow> nat \<Rightarrow> 'a list" where
  "slice xs i j = take (j - i) (drop i xs)"

text \<open>\<^verbatim>\<open>xs.filter(Boolean)\<close> on an array of strings keeps the non-empty ones.\<close>

definition filter_Boolean :: "string list \<Rightarrow> string list" where
  "filter_Boolean xs = filter (\<lambda>s. s \<noteq> []) xs"

section \<open>Splitting a text into pages (vectorStore.js)\<close>

text \<open>
  The word-chunk loop of \<^verbatim>\<open>vectorSearchForPdfBuffer\<close>:
  \<^verbatim>\<open>for (let i = 0; i < words.length; i += chunkSizeWords) {
    pages.push(words.slice(i, i + chunkSizeWords).join(" "));
    if (pages.length >= maxPages) break; }\<close>
  With \<open>chunkSizeWords = 0\<close> the index stands still and the loop leaves through the
  \<^verbatim>\<open>break\<close>, so the loop ends for all values of the options.
\<close>

function chunk_loop :: "nat \<Rightarrow> nat \<Rightarrow> string list \<Rightarrow> nat \<Rightarrow> string list \<Rightarrow> string list" where
  "chunk_loop chunkSizeWords maxPages words i pages =
     (if i < length words then
        (let pages' = pages @ [join '' '' (slice words i (i + chunkSizeWords))]
         in if length pages' \<ge> maxPages then pages'
            else chunk_loop chunkSizeWords maxPages words (i + chunkSizeWords) pages')
      else pages)"
  by pat_completeness auto
termination
  by (relation "measure (\<lambda>(c, m, ws, i, ps). (length ws - i) + (m - length ps))") auto

declare chunk_loop.simps [simp del]

definition split_into_pages :: "nat \<Rightarrow> nat \<Rightarrow> string \<Rightarrow> string list" where
  "split_into_pages chunkSizeWords maxPages fullText =
     (let pages = (if includes_ff fullText
                   then filter_Boolean (map trim (split_on form_feed fullText))
                   else chunk_loop chunkSizeWords maxPages
                          (filter_Boolean (split_ws fullText)) 0 []);
          pages = (if pages = [] then [fullText] else pages);
          pages = (if length pages > maxPages then slice pages 0 maxPages else pages)
      in pages)"

section \<open>The words of a text (specification)\<close>

text \<open>
  The words of a text as the specification counts them: the maximal runs of characters
  that are not white space. \<open>spec_words\<close> lists them in their order, and \<open>spec_wordCount\<close>
  counts the places where a character that is not white space stands at the start of the
  text or behind white space. Neither is taken from the code.
\<close>

function spec_words :: "string \<Rightarrow> string list" where
  "spec_words s =
     (let r = dropWhile is_space s
      in if r = [] then []
         else takeWhile (\<lambda>c. \<not> is_space c) r # spec_words (dropWhile (\<lambda>c. \<not> is_space c) r))"
  by pat_completeness auto
termination
proof (relation "measure length")
  show "wf (measure length)" by simp
next
  fix s r :: string
  assume r: "r = dropWhile is_space s" and ne: "r \<noteq> []"
  from ne obtain c cs where cs: "r = c # cs" by (cases r) auto
  with r have "\<not> is_space c"
    by (metis hd_dropWhile list.sel(1) ne)
  with cs have "length (dropWhile (\<lambda>c. \<not> is_space c) r) < length r"
    by (simp add: le_imp_less_Suc length_dropWhile_le)
  moreover have "length r \<le> length s"
    unfolding r by (rule length_dropWhile_le)
  ultimately show "(dropWhile (\<lambda>c. \<not> is_space c) r, s) \<in> measure length" by simp
qed

declare spec_words.simps [simp del]

fun word_starts :: "bool \<Rightarrow> string \<Rightarrow> nat" where
  "word_starts after_space [] = 0"
| "word_starts after_space (c # cs) =
     (if \<not> is_space c \<and> after_space then 1 else 0) + word_starts (is_space c) cs"

definition spec_wordCount :: "string \<Rightarrow> nat" where
  "spec_wordCount s = word_starts True s"

section \<open>Numbers\<close>

text \<open>
  A number of the program is an IEEE 754 double: a finite value, one of the two infinities,
  or NaN. A finite value is carried as the real number it denotes, and every operation
  rounds its exact result to the nearest double, ties to the even significand, and
  overflows to an infinity. The sign of a zero is not modelled.
\<close>

datatype number = Fin real | PInf | NInf | NaN

text \<open>The power \<open>2\<^sup>k\<close>.\<close>

definition pow2 :: "int \<Rightarrow> real" where
  "pow2 k = 2 powr of_int k"

text \<open>The nearest whole number, the even one of two that are equally near.\<close>

definition round_even :: "real \<Rightarrow> int" where
  "round_even z =
     (let f = \<lfloor>z\<rfloor>; d = z - of_int f
      in if d < 1 / 2 then f
         else if 1 / 2 < d then f + 1
         else if even f then f else f + 1)"

text \<open>
  The exponent of the binade of \<open>x \<noteq> 0\<close>, not below that of the subnormal numbers; a double
  with this exponent is a whole multiple of \<open>2\<close> to the power of the exponent less 52.
\<close>

definition double_exponent :: "real \<Rightarrow> int" where
  "double_exponent x = max \<lfloor>log 2 \<bar>x\<bar>\<rfloor> (- 1022)"

text \<open>The largest finite double.\<close>

definition max_double :: real where
  "max_double = (2 - pow2 (- 52)) * pow2 1023"

text \<open>The double that stands for the exact result \<open>x\<close> of an operation.\<close>

definition to_double :: "real \<Rightarrow> number" where
  "to_double x =
     (if x = 0 then Fin 0
      else (let u = pow2 (double_exponent x - 52);
                y = of_int (round_even (x / u)) * u
            in if max_double < y then PInf
               else if y < - max_double then NInf
               else Fin y))"

text \<open>The operations \<^verbatim>\<open>+\<close>, unary and binary \<^verbatim>\<open>-\<close>, \<^verbatim>\<open>*\<close>, \<^verbatim>\<open>/\<close> and \<^verbatim>\<open>Math.sqrt\<close>.\<close>

fun fadd :: "number \<Rightarrow> number \<Rightarrow> number" where
  "fadd (Fin x) (Fin y) = to_double (x + y)"
| "fadd NaN b = NaN"
| "fadd a NaN = NaN"
| "fadd PInf NInf = NaN"
| "fadd NInf PInf = NaN"
| "fadd PInf b = PInf"
| "fadd a PInf = PInf"
| "fadd NInf b = NInf"
| "fadd a NInf = NInf"

fun fneg :: "number \<Rightarrow> number" where
  "fneg (Fin x) = Fin (- x)"
| "fneg PInf = NInf"
| "fneg NInf = PInf"
| "fneg NaN = NaN"

definition fsub :: "number \<Rightarrow> number \<Rightarrow> number" where
  "fsub a b = fadd a (fneg b)"

fun fmul :: "number \<Rightarrow> number \<Rightarrow> number" where
  "fmul (Fin x) (Fin y) = to_double (x * y)"
| "fmul NaN b = NaN"
| "fmul a NaN = NaN"
| "fmul (Fin x) PInf = (if x = 0 then NaN else if 0 < x then PInf else NInf)"
| "fmul (Fin x) NInf = (if x = 0 then NaN else if 0 < x then NInf else PInf)"
| "fmul PInf (Fin y) = (if y = 0 then NaN else if 0 < y then PInf else NInf)"
| "fmul NInf (Fin y) = (if y = 0 then NaN else if 0 < y then NInf else PInf)"
| "fmul PInf PInf = PInf"
| "fmul NInf NInf = PInf"
| "fmul PInf NInf = NInf"
| "fmul NInf PInf = NInf"

fun fdiv :: "number \<Rightarrow> number \<Rightarrow> number" where
  "fdiv (Fin x) (Fin y) =
     (if y = 0 then (if x = 0 then NaN else if 0 < x then PInf else NInf)
      else to_double (x / y))"
| "fdiv NaN b = NaN"
| "fdiv a NaN = NaN"
| "fdiv (Fin x) PInf = Fin 0"
| "fdiv (Fin x) NInf = Fin 0"
| "fdiv PInf (Fin y) = (if 0 \<le> y then PInf else NInf)"
| "fdiv NInf (Fin y) = (if 0 \<le> y then NInf else PInf)"
| "fdiv PInf PInf = NaN"
| "fdiv PInf NInf = NaN"
| "fdiv NInf PInf = NaN"
| "fdiv NInf NInf = NaN"

fun fsqrt :: "number \<Rightarrow> number" where
  "fsqrt (Fin x) = (if x < 0 then NaN else to_double (sqrt x))"
| "fsqrt PInf = PInf"
| "fsqrt NInf = NaN"
| "fsqrt NaN = NaN"

text \<open>A double is a whole multiple of the least positive double.\<close>

definition is_double :: "real \<Rightarrow> bool" where
  "is_double r = (\<exists>m::int. r = of_int m * pow2 (- 1074))"

definition double_value :: "number \<Rightarrow> bool" where
  "double_value v = (case v of Fin r \<Rightarrow> is_double r | _ \<Rightarrow> True)"

text \<open>The values a sum of squares can take: a double that is not negative, infinity or NaN.\<close>

definition norm_value :: "number \<Rightarrow> bool" where
  "norm_value v =
     (case v of Fin r \<Rightarrow> 0 \<le> r \<and> is_double r | PInf \<Rightarrow> True | NInf \<Rightarrow> False | NaN \<Rightarrow> True)"

text \<open>The values the square root of a sum of squares other than 0 can take.\<close>

definition root_value :: "number \<Rightarrow> bool" where
  "root_value v =
     (case v of Fin s \<Rightarrow> pow2 (- 537) \<le> s | PInf \<Rightarrow> True | NInf \<Rightarrow> False | NaN \<Rightarrow> True)"

section \<open>Scoring and ranking (vectorStore.js)\<close>

text \<open>
  An embedding as it comes back from the provider is either an array of numbers or some
  other value (\<^verbatim>\<open>undefined\<close>, an object).
\<close>

datatype embedding = Vec "number list" | NotArray

text \<open>
  The loop of \<^verbatim>\<open>cosineSimilarity\<close>, run on two arrays of the same length:
  \<^verbatim>\<open>dot += a[i] * b[i]; na += a[i] * a[i]; nb += b[i] * b[i];\<close>
\<close>

definition cosine_sums :: "number list \<Rightarrow> number list \<Rightarrow> number \<times> number \<times> number" where
  "cosine_sums a b =
     foldl (\<lambda>(dot, na, nb) (x, y). (fadd dot (fmul x y), fadd na (fmul x x), fadd nb (fmul y y)))
       (Fin 0, Fin 0, Fin 0) (zip a b)"

text \<open>The sum \<^verbatim>\<open>na\<close> of that loop, as a function of the one array.\<close>

definition sum_squares :: "number list \<Rightarrow> number" where
  "sum_squares xs = foldl (\<lambda>a x. fadd a (fmul x x)) (Fin 0) xs"

text \<open>
  \<^verbatim>\<open>if (!Array.isArray(a) || !Array.isArray(b) || a.length !== b.length) return 0;\<close>
  then the loop, then
  \<^verbatim>\<open>if (na === 0 || nb === 0) return 0; return dot / (Math.sqrt(na) * Math.sqrt(nb));\<close>
\<close>

definition cosineSimilarity :: "embedding \<Rightarrow> embedding \<Rightarrow> number" where
  "cosineSimilarity a b =
     (case (a, b) of
        (Vec xs, Vec ys) \<Rightarrow>
          if length xs \<noteq> length ys then Fin 0
          else (case cosine_sums xs ys of
                  (dot, na, nb) \<Rightarrow>
                    if na = Fin 0 \<or> nb = Fin 0 then Fin 0
                    else fdiv dot (fmul (fsqrt na) (fsqrt nb)))
      | _ \<Rightarrow> Fin 0)"

record scored =
  pageNumber :: nat
  page_text :: string
  score :: number

text \<open>\<^verbatim>\<open>pageEmbeddings[idx]\<close>, which is \<^verbatim>\<open>undefined\<close> beyond the end of the array.\<close>

definition embedding_at :: "embedding list \<Rightarrow> nat \<Rightarrow> embedding" where
  "embedding_at pageEmbeddings idx =
     (if idx < length pageEmbeddings then pageEmbeddings ! idx else NotArray)"

text \<open>
  \<^verbatim>\<open>Array.isArray(emb) && Array.isArray(qEmb) && emb.length === qEmb.length
    ? cosineSimilarity(qEmb, emb) : 0\<close>
\<close>

definition page_score :: "embedding \<Rightarrow> embedding \<Rightarrow> number" where
  "page_score qEmb emb =
     (case (emb, qEmb) of
        (Vec e, Vec q) \<Rightarrow> if length e = length q then cosineSimilarity qEmb emb else Fin 0
      | _ \<Rightarrow> Fin 0)"

definition score_pages :: "string list \<Rightarrow> embedding list \<Rightarrow> embedding \<Rightarrow> scored list" where
  "score_pages pages pageEmbeddings qEmb =
     map (\<lambda>(idx, t). \<lparr>pageNumber = idx + 1, page_text = t,
                       score = page_score qEmb (embedding_at pageEmbeddings idx)\<rparr>)
         (enumerate 0 pages)"

text \<open>The comparator \<^verbatim>\<open>(a, b) => b.score - a.score\<close>.\<close>

definition by_score_desc :: "scored \<Rightarrow> scored \<Rightarrow> number" where
  "by_score_desc a b = fsub (score b) (score a)"

text \<open>
  \<^verbatim>\<open>Array.prototype.sort\<close> is a stable sort: \<open>a\<close> stays in front of a later \<open>b\<close> unless the
  comparator gives a positive number, and a comparator result that is NaN counts as zero.
  For a consistent comparator the result of a stable sort is determined by the input; it
  is computed here by insertion from the right. Where the comparator is not consistent
  (a score is NaN) the language leaves the order to the implementation, and this insertion
  is one such order.
\<close>

definition positive :: "number \<Rightarrow> bool" where
  "positive v = (case v of Fin d \<Rightarrow> 0 < d | PInf \<Rightarrow> True | NInf \<Rightarrow> False | NaN \<Rightarrow> False)"

fun place :: "('a \<Rightarrow> 'a \<Rightarrow> number) \<Rightarrow> 'a \<Rightarrow> 'a list \<Rightarrow> 'a list" where
  "place cmp a [] = [a]"
| "place cmp a (b # bs) = (if positive (cmp a b) then b # place cmp a bs else a # b # bs)"

definition array_sort :: "('a \<Rightarrow> 'a \<Rightarrow> number) \<Rightarrow> 'a list \<Rightarrow> 'a list" where
  "array_sort cmp xs = foldr (place cmp) xs []"

text \<open>
  The ranking of \<^verbatim>\<open>vectorSearchForPdfBuffer\<close>:
  \<^verbatim>\<open>scored.sort((a, b) => b.score - a.score);
  const topPages = scored.slice(0, Math.min(topK, scored.length));\<close>
\<close>

definition rank :: "string list \<Rightarrow> embedding list \<Rightarrow> embedding \<Rightarrow> nat \<Rightarrow> scored list" where
  "rank pages pageEmbeddings qEmb topK =
     (let scored = array_sort by_score_desc (score_pages pages pageEmbeddings qEmb)
      in slice scored 0 (min topK (length scored)))"

text \<open>
  Score \<open>x\<close> is at least score \<open>y\<close>, as \<^verbatim>\<open>x >= y\<close> has it: NaN is neither above nor below
  any number.
\<close>

fun score_ge :: "number \<Rightarrow> number \<Rightarrow> bool" where
  "score_ge NaN y = False"
| "score_ge x NaN = False"
| "score_ge PInf y = True"
| "score_ge x NInf = True"
| "score_ge (Fin a) (Fin b) = (b \<le> a)"
| "score_ge x y = False"

section \<open>The search of one document (vectorStore.js)\<close>

text \<open>
  The outside world is a record of capabilities. Text extraction is a function of the
  file's bytes. A call of the embedding provider is identified by the index of the document
  in the request and, for a batch of pages, the offset of the batch, so that any call may
  fail or answer on its own. \<open>None\<close> is a call that throws; the embeddings are taken after
  \<^verbatim>\<open>normalizeProviderResponse\<close>, which gives an array for a batch or throws. The context string
  given to the language model is a function of the documents' names and top pages, so the
  model is called with these. A buffer is an object and so never falsy: the check
  \<^verbatim>\<open>if (!buffer)\<close> has no branch here.
\<close>

type_synonym buffer = string

record capabilities =
  randomUUID :: string
  PDFParse :: "buffer \<Rightarrow> string option"
  pdf_text :: "buffer \<Rightarrow> string option"
  embed_batch :: "nat \<Rightarrow> nat \<Rightarrow> string list \<Rightarrow> embedding list option"
  embed_single :: "nat \<Rightarrow> string \<Rightarrow> embedding option"
  askWithLlama :: "(string \<times> scored list) list \<Rightarrow> string \<Rightarrow> string option"

record options =
  topK :: nat
  chunkSizeWords :: nat
  maxPages :: nat
  batchSize :: nat

text \<open>The defaults of \<^verbatim>\<open>vectorSearchForPdfBuffer\<close> with the handler's \<^verbatim>\<open>{ topK: 5 }\<close>.\<close>

definition handler_options :: options where
  "handler_options = \<lparr>topK = 5, chunkSizeWords = 300, maxPages = 400, batchSize = 8\<rparr>"

datatype error =
    Question_required
  | Extraction_failed
  | Embedding_pages_failed
  | Embedding_question_failed
  | Read_failed
  | Parse_failed

text \<open>
  \<^verbatim>\<open>for (let k = 0; k < batchEmb.length; k++) pageEmbeddings[i + k] = batchEmb[k];\<close>
  The batch has as many entries as the slice of pages it answers, so no index is beyond
  the end of \<^verbatim>\<open>pageEmbeddings\<close>.
\<close>

definition store_batch :: "embedding list \<Rightarrow> nat \<Rightarrow> embedding list \<Rightarrow> embedding list" where
  "store_batch pageEmbeddings i batchEmb =
     fold (\<lambda>k pe. pe[i + k := batchEmb ! k]) [0..<length batchEmb] pageEmbeddings"

text \<open>
  The batch loop. With \<open>batchSize = 0\<close> and a provider that answers the empty batch with the
  empty array the loop never ends: the result is then \<open>None\<close>.
\<close>

partial_function (option) embed_loop ::
  "(nat \<Rightarrow> string list \<Rightarrow> embedding list option) \<Rightarrow> nat \<Rightarrow> string list \<Rightarrow> nat \<Rightarrow>
     embedding list \<Rightarrow> (error + embedding list) option"
where
  "embed_loop provider bs pages i pageEmbeddings =
     (if i < length pages then
        (case provider i (slice pages i (i + bs)) of
           None \<Rightarrow> Some (Inl Embedding_pages_failed)
         | Some batchEmb \<Rightarrow>
             if length batchEmb \<noteq> length (slice pages i (i + bs))
             then Some (Inl Embedding_pages_failed)
             else embed_loop provider bs pages (i + bs) (store_batch pageEmbeddings i batchEmb))
      else Some (Inr pageEmbeddings))"

definition vectorSearchForPdfBuffer ::
  "capabilities \<Rightarrow> nat \<Rightarrow> buffer \<Rightarrow> string \<Rightarrow> options \<Rightarrow> (error + scored list) option"
where
  "vectorSearchForPdfBuffer cap fi buf question opts =
     (if question = [] then Some (Inl Question_required)
      else (case pdf_text cap buf of
              None \<Rightarrow> Some (Inl Extraction_failed)
            | Some fullText \<Rightarrow>
                (let pages = split_into_pages (chunkSizeWords opts) (maxPages opts) fullText
                 in case embed_loop (embed_batch cap fi) (batchSize opts) pages 0
                           (replicate (length pages) NotArray) of
                      None \<Rightarrow> None
                    | Some (Inl e) \<Rightarrow> Some (Inl e)
                    | Some (Inr pageEmbeddings) \<Rightarrow>
                        (case embed_single cap fi question of
                           None \<Rightarrow> Some (Inl Embedding_question_failed)
                         | Some qEmb \<Rightarrow>
                             Some (Inr (rank pages pageEmbeddings qEmb (topK opts)))))))"

section \<open>Upload storage (the server)\<close>

text \<open>
  The upload directory holds the files multer has written and one sub-directory per upload
  id. A directory is the list of its entries in directory order. Upload ids and file names
  are taken as single path components. A call of the file system throws only when the file
  or directory it names is missing.
\<close>

type_synonym directory = "(string \<times> buffer) list"

record file_system =
  upload_dir :: directory
  sessions :: "string \<Rightarrow> directory option"

datatype location = In_upload_dir string | In_session string string

text \<open>
  A file as multer lists it in \<^verbatim>\<open>req.files\<close>, and a file as the handler works with it. With
  disk storage, multer sets \<^verbatim>\<open>file.path\<close> to the file name inside the upload directory; the
  handler overwrites the path when it moves the file.
\<close>

record multer_file =
  originalname :: string
  filename :: string

record upload_file = multer_file +
  path :: location

definition as_stored_by_multer :: "multer_file \<Rightarrow> upload_file" where
  "as_stored_by_multer f =
     \<lparr>originalname = originalname f, filename = filename f, path = In_upload_dir (filename f)\<rparr>"

record request =
  files :: "multer_file list"
  body_uploadId :: "string option"
  body_question :: "string option"

definition put_entry :: "string \<Rightarrow> buffer \<Rightarrow> directory \<Rightarrow> directory" where
  "put_entry name content d =
     (if name \<in> fst ` set d
      then map (\<lambda>(n, c). if n = name then (n, content) else (n, c)) d
      else d @ [(name, content)])"

definition remove_entry :: "string \<Rightarrow> directory \<Rightarrow> directory" where
  "remove_entry name d = filter (\<lambda>(n, c). n \<noteq> name) d"

text \<open>\<^verbatim>\<open>fs.readFileSync(p)\<close>; \<open>None\<close> when it throws because there is no such file.\<close>

definition readFileSync :: "file_system \<Rightarrow> location \<Rightarrow> buffer option" where
  "readFileSync st p =
     (case p of
        In_upload_dir n \<Rightarrow> map_of (upload_dir st) n
      | In_session d n \<Rightarrow> (case sessions st d of None \<Rightarrow> None | Some es \<Rightarrow> map_of es n))"

definition unlink :: "file_system \<Rightarrow> location \<Rightarrow> file_system" where
  "unlink st p =
     (case p of
        In_upload_dir n \<Rightarrow> st\<lparr>upload_dir := remove_entry n (upload_dir st)\<rparr>
      | In_session d n \<Rightarrow>
          (case sessions st d of
             None \<Rightarrow> st
           | Some es \<Rightarrow> st\<lparr>sessions := (sessions st)(d \<mapsto> remove_entry n es)\<rparr>))"

text \<open>
  \<^verbatim>\<open>fs.renameSync(f.path, dest)\<close> with its fall-back \<^verbatim>\<open>copyFileSync\<close> and \<^verbatim>\<open>unlinkSync\<close>, for a
  destination in the directory of an upload id: the file is moved, replacing an entry of
  the same name; \<open>None\<close> when there is no source file or no such directory, where the
  fall-back throws as well.
\<close>

definition move_file :: "file_system \<Rightarrow> location \<Rightarrow> string \<Rightarrow> string \<Rightarrow> file_system option" where
  "move_file st src d n =
     (case readFileSync st src of
        None \<Rightarrow> None
      | Some content \<Rightarrow>
          (let st1 = unlink st src
           in case sessions st1 d of
                None \<Rightarrow> None
              | Some es \<Rightarrow> Some (st1\<lparr>sessions := (sessions st1)(d \<mapsto> put_entry n content es)\<rparr>)))"

text \<open>
  The loop that moves each uploaded file into the directory of the upload id. An exception
  leaves the loop with the files moved so far (\<open>Inl\<close>).
\<close>

fun move_files ::
  "file_system \<Rightarrow> string \<Rightarrow> upload_file list \<Rightarrow> file_system + (file_system \<times> upload_file list)"
where
  "move_files st uploadId [] = Inr (st, [])"
| "move_files st uploadId (f # fs) =
     (case move_file st (path f) uploadId (filename f) of
        None \<Rightarrow> Inl st
      | Some st1 \<Rightarrow>
          (case move_files st1 uploadId fs of
             Inl st2 \<Rightarrow> Inl st2
           | Inr (st2, fs') \<Rightarrow> Inr (st2, f\<lparr>path := In_session uploadId (filename f)\<rparr> # fs')))"

text \<open>\<^verbatim>\<open>n.toLowerCase()\<close> on code units below 256, and \<^verbatim>\<open>endsWith(".pdf")\<close>.\<close>

definition toLowerCase_char :: "char \<Rightarrow> char" where
  "toLowerCase_char c =
     (let n = of_char c :: nat
      in if (65 \<le> n \<and> n \<le> 90) \<or> (192 \<le> n \<and> n \<le> 222 \<and> n \<noteq> 215)
         then char_of (n + 32) else c)"

definition is_pdf_name :: "string \<Rightarrow> bool" where
  "is_pdf_name n = suffix ''.pdf'' (map toLowerCase_char n)"

text \<open>\<^verbatim>\<open>fname.replace(/^\d+_/, "")\<close>\<close>

definition is_digit :: "char \<Rightarrow> bool" where
  "is_digit c = (48 \<le> (of_char c :: nat) \<and> (of_char c :: nat) \<le> 57)"

definition strip_timestamp :: "string \<Rightarrow> string" where
  "strip_timestamp fname =
     (let ds = takeWhile is_digit fname; r = dropWhile is_digit fname
      in case r of
           c # r' \<Rightarrow> if ds \<noteq> [] \<and> c = CHR ''_'' then r' else fname
         | [] \<Rightarrow> fname)"

text \<open>
  multer's \<^verbatim>\<open>filename\<close> callback:
  \<^verbatim>\<open>const safe = file.originalname.replace(/[^a-z0-9.\-_]/gi, "_");
  cb(null, `${Date.now()}_${safe}`);\<close>
\<close>

definition safe_char :: "char \<Rightarrow> bool" where
  "safe_char c =
     (let n = of_char c :: nat
      in (97 \<le> n \<and> n \<le> 122) \<or> (65 \<le> n \<and> n \<le> 90) \<or> (48 \<le> n \<and> n \<le> 57)
         \<or> c = CHR ''.'' \<or> c = CHR ''-'' \<or> c = CHR ''_'')"

definition sanitize :: "string \<Rightarrow> string" where
  "sanitize name = map (\<lambda>c. if safe_char c then c else CHR ''_'') name"

fun decimal :: "nat \<Rightarrow> string" where
  "decimal n =
     (if n < 10 then [char_of (48 + n)]
      else decimal (n div 10) @ [char_of (48 + n mod 10)])"

declare decimal.simps [simp del]

definition multer_filename :: "nat \<Rightarrow> string \<Rightarrow> string" where
  "multer_filename now name = decimal now @ ''_'' @ sanitize name"

text \<open>
  multer's disk storage, run before the handler: each file part, with the time at which it
  is stored, is written to the upload directory and listed in \<^verbatim>\<open>req.files\<close>.
\<close>

fun multer_store ::
  "file_system \<Rightarrow> (nat \<times> string \<times> buffer) list \<Rightarrow> file_system \<times> multer_file list"
where
  "multer_store st [] = (st, [])"
| "multer_store st ((now, name, content) # parts) =
     (let fname = multer_filename now name;
          st1 = st\<lparr>upload_dir := put_entry fname content (upload_dir st)\<rparr>;
          (st2, fs) = multer_store st1 parts
      in (st2, \<lparr>originalname = name, filename = fname\<rparr> # fs))"

section \<open>The handler of POST /ask (the server)\<close>

text \<open>
  \<^verbatim>\<open>req.body && req.body.uploadId ? String(req.body.uploadId) : null\<close>: the empty string
  counts as no upload id.
\<close>

definition uploadIdFromClient :: "request \<Rightarrow> string option" where
  "uploadIdFromClient req =
     (case body_uploadId req of None \<Rightarrow> None | Some s \<Rightarrow> if s = [] then None else Some s)"

text \<open>The entry that the follow-up branch makes for a stored file name.\<close>

definition stored_file :: "string \<Rightarrow> string \<Rightarrow> upload_file" where
  "stored_file uploadId fname =
     \<lparr>originalname = strip_timestamp fname, filename = fname,
      path = In_session uploadId fname\<rparr>"

text \<open>
  The first part of the handler, up to the effective list of files: a new upload gets a
  new upload id and its files are moved into the directory of that id; a request without
  files and with an upload id reads the files of that id. The result is the file system,
  the effective files and the upload id, or the file system at an exception (\<open>Inl\<close>).
\<close>

definition resolve_files ::
  "capabilities \<Rightarrow> file_system \<Rightarrow> request \<Rightarrow>
     file_system + (file_system \<times> upload_file list \<times> string option)"
where
  "resolve_files cap st req =
     (let allFiles = map as_stored_by_multer (files req);
          fromClient = uploadIdFromClient req;
          moved =
            (if allFiles \<noteq> [] \<and> fromClient = None then
               (let uploadId = randomUUID cap;
                    st1 = (if sessions st uploadId = None
                           then st\<lparr>sessions := (sessions st)(uploadId \<mapsto> [])\<rparr> else st)
                in case move_files st1 uploadId allFiles of
                     Inl st2 \<Rightarrow> Inl st2
                   | Inr (st2, fs) \<Rightarrow> Inr (st2, fs, Some uploadId))
             else Inr (st, allFiles, fromClient))
      in case moved of
           Inl st2 \<Rightarrow> Inl st2
         | Inr (st2, fs, uploadId) \<Rightarrow>
             (case fromClient of
                Some cid \<Rightarrow>
                  if allFiles = [] then
                    (case sessions st2 cid of
                       Some es \<Rightarrow>
                         Inr (st2, map (stored_file cid) (filter is_pdf_name (map fst es)),
                              Some cid)
                     | None \<Rightarrow> Inr (st2, [], uploadId))
                  else Inr (st2, fs, uploadId)
              | None \<Rightarrow> Inr (st2, fs, uploadId)))"

datatype failure = File_failed string error | LLM_failed | Route_failed

datatype response =
    Bad_Request string
  | Server_Error failure
  | Answer string "(string \<times> (nat \<times> number) list) list" "string option"

definition no_pdfs :: string where
  "no_pdfs = ''No PDFs uploaded (field name must be 'pdf') or uploadId missing/invalid''"

definition no_question :: string where
  "no_question = ''No question provided''"

text \<open>
  The body of the loop over the effective files: read and parse the file, then search it.
\<close>

definition process_file ::
  "capabilities \<Rightarrow> file_system \<Rightarrow> string \<Rightarrow> nat \<Rightarrow> upload_file \<Rightarrow> (error + scored list) option"
where
  "process_file cap st question fi file =
     (case readFileSync st (path file) of
        None \<Rightarrow> Some (Inl Read_failed)
      | Some buf \<Rightarrow>
          (case PDFParse cap buf of
             None \<Rightarrow> Some (Inl Parse_failed)
           | Some pdfText \<Rightarrow> vectorSearchForPdfBuffer cap fi buf question handler_options))"

text \<open>
  The loop over the effective files. The first file that fails ends the request; the
  files after it are not looked at.
\<close>

fun process_files ::
  "capabilities \<Rightarrow> file_system \<Rightarrow> string \<Rightarrow> nat \<Rightarrow> upload_file list \<Rightarrow>
     (failure + (string \<times> scored list) list) option"
where
  "process_files cap st question fi [] = Some (Inr [])"
| "process_files cap st question fi (file # rest) =
     (case process_file cap st question fi file of
        None \<Rightarrow> None
      | Some (Inl e) \<Rightarrow> Some (Inl (File_failed (originalname file) e))
      | Some (Inr topPages) \<Rightarrow>
          (case process_files cap st question (fi + 1) rest of
             None \<Rightarrow> None
           | Some (Inl f) \<Rightarrow> Some (Inl f)
           | Some (Inr docs) \<Rightarrow> Some (Inr ((originalname file, topPages) # docs))))"

definition sources_of :: "(string \<times> scored list) list \<Rightarrow> (string \<times> (nat \<times> number) list) list" where
  "sources_of docs = map (\<lambda>(name, topPages). (name, map (\<lambda>p. (pageNumber p, score p)) topPages)) docs"

text \<open>\<^verbatim>\<open>uploadId || null\<close>, the upload id in the response.\<close>

definition or_null :: "string option \<Rightarrow> string option" where
  "or_null uploadId =
     (case uploadId of None \<Rightarrow> None | Some s \<Rightarrow> if s = [] then None else Some s)"

text \<open>
  The handler: the response and the file system it leaves; \<open>None\<close> when it never responds.
\<close>

definition handler ::
  "capabilities \<Rightarrow> file_system \<Rightarrow> request \<Rightarrow> (response \<times> file_system) option"
where
  "handler cap st req =
     (case resolve_files cap st req of
        Inl st1 \<Rightarrow> Some (Server_Error Route_failed, st1)
      | Inr (st1, fs, uploadId) \<Rightarrow>
          if fs = [] then Some (Bad_Request no_pdfs, st1)
          else (case body_question req of
                  None \<Rightarrow> Some (Bad_Request no_question, st1)
                | Some question \<Rightarrow>
                    if question = [] then Some (Bad_Request no_question, st1)
                    else (case process_files cap st1 question 0 fs of
                            None \<Rightarrow> None
                          | Some (Inl f) \<Rightarrow> Some (Server_Error f, st1)
                          | Some (Inr docs) \<Rightarrow>
                              (case askWithLlama cap docs question of
                                 None \<Rightarrow> Some (Server_Error LLM_failed, st1)
                               | Some answer \<Rightarrow>
                                   Some (Answer answer (sources_of docs) (or_null uploadId), st1)))))"

text \<open>
  The order of the ranking: a higher score first, and of two pages with the same score the
  one with the lower page number.
\<close>

definition ranked_before :: "scored \<Rightarrow> scored \<Rightarrow> bool" where
  "ranked_before a b \<longleftrightarrow>
     score_ge (score a) (score b) \<and> (score a = score b \<longrightarrow> pageNumber a < pageNumber b)"

section \<open>Example inputs\<close>

text \<open>
  An environment in which every capability succeeds, a file system with one file stored by
  multer, and requests on it.
\<close>

definition example_cap :: capabilities where
  "example_cap =
     \<lparr>randomUUID = ''u1'', PDFParse = Some, pdf_text = Some,
      embed_batch = (\<lambda>fi i batch. Some (map (\<lambda>p. Vec [Fin 1, Fin 0]) batch)),
      embed_single = (\<lambda>fi q. Some (Vec [Fin 1, Fin 0])),
      askWithLlama = (\<lambda>docs q. Some ''ok'')\<rparr>"

definition example_fs :: file_system where
  "example_fs = \<lparr>upload_dir = [(''17_a.pdf'', ''text of a'')], sessions = (\<lambda>uploadId. None)\<rparr>"

definition example_file :: multer_file where
  "example_file = \<lparr>originalname = ''a.pdf'', filename = ''17_a.pdf''\<rparr>"

definition example_session_fs :: file_system where
  "example_session_fs =
     \<lparr>upload_dir = [],
      sessions = (\<lambda>uploadId. None)(''u1'' \<mapsto>
        [(''17_a.pdf'', ''text of a''), (''notes.txt'', ''notes''), (''18_B.PDF'', ''text of b'')])\<rparr>"

definition example_request :: request where
  "example_request = \<lparr>files = [example_file], body_uploadId = None, body_question = Some []\<rparr>"

definition example_moved_fs :: file_system where
  "example_moved_fs =
     \<lparr>upload_dir = [],
      sessions = (\<lambda>uploadId. None)(''u1'' \<mapsto> [(''17_a.pdf'', ''text of a'')])\<rparr>"

text \<open>A file of the request after the handler has moved it into the directory \<open>d\<close>.\<close>

definition moved_to :: "string \<Rightarrow> multer_file \<Rightarrow> upload_file" where
  "moved_to d f =
     \<lparr>originalname = originalname f, filename = filename f, path = In_session d (filename f)\<rparr>"

definition example_taken_fs :: file_system where
  "example_taken_fs =
     \<lparr>upload_dir = [(''17_a.pdf'', ''text of a'')],
      sessions = (\<lambda>uploadId. None)(''u1'' \<mapsto> [(''17_a.pdf'', ''older text''), (''9_x.pdf'', ''text of x'')])\<rparr>"

definition example_request_with_id :: request where
  "example_request_with_id =
     \<lparr>files = [example_file], body_uploadId = Some ''abc'', body_question = Some ''q''\<rparr>"

text \<open>
  A document of nine pages, and an environment whose embedding provider throws on the
  batch at offset 8, the second batch of a document.
\<close>

definition nine_pages :: string where
  "nine_pages = concat (map (\<lambda>c. [c, form_feed]) ''abcdefgh'') @ ''i''"

definition failing_cap :: capabilities where
  "failing_cap =
     \<lparr>randomUUID = ''u1'', PDFParse = Some, pdf_text = Some,
      embed_batch = (\<lambda>fi i batch. if i = 8 then None else Some (map (\<lambda>p. Vec [Fin 1, Fin 0]) batch)),
      embed_single = (\<lambda>fi q. Some (Vec [Fin 1, Fin 0])),
      askWithLlama = (\<lambda>docs q. Some ''ok'')\<rparr>"

definition nine_pages_fs :: file_system where
  "nine_pages_fs = \<lparr>upload_dir = [(''17_a.pdf'', nine_pages)], sessions = (\<lambda>uploadId. None)\<rparr>"

definition nine_pages_moved_fs :: file_system where
  "nine_pages_moved_fs =
     \<lparr>upload_dir = [], sessions = (\<lambda>uploadId. None)(''u1'' \<mapsto> [(''17_a.pdf'', nine_pages)])\<rparr>"

definition nine_pages_request :: request where
  "nine_pages_request =
     \<lparr>files = [\<lparr>originalname = ''a.pdf'', filename = ''17_a.pdf''\<rparr>],
      body_uploadId = None, body_question = Some ''what is in it''\<rparr>"

text \<open>The names of the uploaded files as the client gave them.\<close>

definition uploaded_names :: "(nat \<times> string \<times> buffer) list \<Rightarrow> string set" where
  "uploaded_names parts = (\<lambda>(now, name, content). name) ` set parts"

text \<open>
  An upload of two files, one with a space in its name and one without extension, and the
  follow-up request on it.
\<close>

definition two_files_fs :: file_system where
  "two_files_fs =
     \<lparr>upload_dir = [(''17_a_b.pdf'', ''text of a''), (''18_notes'', ''text of notes'')],
      sessions = (\<lambda>uploadId. None)\<rparr>"

definition two_files_session_fs :: file_system where
  "two_files_session_fs =
     \<lparr>upload_dir = [],
      sessions = (\<lambda>uploadId. None)(''u1'' \<mapsto>
        [(''17_a_b.pdf'', ''text of a''), (''18_notes'', ''text of notes'')])\<rparr>"

definition two_files_request :: request where
  "two_files_request =
     \<lparr>files = [\<lparr>originalname = ''a b.pdf'', filename = ''17_a_b.pdf''\<rparr>,
               \<lparr>originalname = ''notes'', filename = ''18_notes''\<rparr>],
      body_uploadId = None, body_question = Some ''what is in it''\<rparr>"

definition follow_up_request :: request where
  "follow_up_request =
     \<lparr>files = [], body_uploadId = Some ''u1'', body_question = Some ''and what else''\<rparr>"

section \<open>Doubles\<close>

lemma pow2_pos: "0 < pow2 k"
  by (simp add: pow2_def)

lemma pow2_add: "pow2 (a + b) = pow2 a * pow2 b"
  by (simp add: pow2_def powr_add)

lemma pow2_0: "pow2 0 = 1"
  by (simp add: pow2_def)

lemma pow2_mono: "a \<le> b \<Longrightarrow> pow2 a \<le> pow2 b"
  by (simp add: pow2_def)

lemma pow2_nat: "pow2 (int n) = 2 ^ n"
  by (simp add: pow2_def powr_realpow)

lemma log_pow2: "log 2 (pow2 k) = of_int k"
  by (simp add: pow2_def)

lemma round_even_bounds: "\<lfloor>z\<rfloor> \<le> round_even z \<and> round_even z \<le> \<lfloor>z\<rfloor> + 1"
  by (simp add: round_even_def Let_def)

lemma round_even_of_int: "round_even (of_int n) = n"
  by (simp add: round_even_def Let_def)

lemma round_even_ge:
  assumes "of_int n \<le> z"
  shows "n \<le> round_even z"
proof -
  from assms have "n \<le> \<lfloor>z\<rfloor>" by (simp add: le_floor_iff)
  with round_even_bounds [of z] show ?thesis by linarith
qed

lemma round_even_nonpos: "z \<le> 0 \<Longrightarrow> round_even z \<le> 0"
proof -
  assume z: "z \<le> 0"
  show ?thesis
  proof (cases "\<lfloor>z\<rfloor> \<le> - 1")
    case True
    with round_even_bounds [of z] show ?thesis by linarith
  next
    case False
    with z have "\<lfloor>z\<rfloor> = 0" by (smt (verit) floor_le_zero)
    with z have "z = 0" by (smt (verit) floor_eq_iff of_int_0)
    then show ?thesis by (simp add: round_even_def)
  qed
qed

lemma round_even_nonneg: "0 \<le> z \<Longrightarrow> 0 \<le> round_even z"
  using round_even_ge [of 0 z] by simp


text \<open>Facts about rounding to a double.\<close>

lemma double_exponent_ge: "- 1022 \<le> double_exponent x"
  by (simp add: double_exponent_def)

lemma to_double_multiple:
  assumes "to_double x = Fin y"
  shows "is_double y"
proof (cases "x = 0")
  case True
  with assms have "y = 0" by (simp add: to_double_def)
  then show ?thesis by (auto simp: is_double_def intro: exI [of _ 0])
next
  case False
  define e where "e = double_exponent x"
  define k where "k = round_even (x / pow2 (e - 52))"
  from assms False have y: "y = of_int k * pow2 (e - 52)"
    by (auto simp: to_double_def Let_def e_def k_def split: if_splits)
  have "0 \<le> e + 1022" using double_exponent_ge [of x] by (simp add: e_def)
  then obtain n :: nat where n: "e + 1022 = int n" by (metis nonneg_int_cases)
  have "pow2 (e - 52) = pow2 (int n) * pow2 (- 1074)"
    using n by (simp flip: pow2_add) (smt (verit) n)
  also have "\<dots> = of_int (2 ^ n) * pow2 (- 1074)"
    by (simp add: pow2_nat)
  finally have "y = of_int (k * 2 ^ n) * pow2 (- 1074)"
    using y by simp
  then show ?thesis unfolding is_double_def by blast
qed

lemma to_double_nonneg:
  assumes "0 \<le> x"
  shows "to_double x = PInf \<or> (\<exists>y. to_double x = Fin y \<and> 0 \<le> y)"
proof (cases "x = 0")
  case True
  then show ?thesis by (simp add: to_double_def)
next
  case False
  let ?u = "pow2 (double_exponent x - 52)"
  have "0 \<le> x / ?u" using assms pow2_pos [of "double_exponent x - 52"] by simp
  then have "0 \<le> round_even (x / ?u)" by (rule round_even_nonneg)
  then have "0 \<le> of_int (round_even (x / ?u)) * ?u"
    using pow2_pos [of "double_exponent x - 52"] by simp
  moreover have "0 < max_double"
    using pow2_pos [of 1023] pow2_mono [of "- 52" 0] by (simp add: max_double_def pow2_0)
  ultimately show ?thesis
    using False by (auto simp: to_double_def Let_def)
qed

lemma to_double_nonpos:
  assumes "x \<le> 0"
  shows "to_double x = NInf \<or> (\<exists>y. to_double x = Fin y \<and> y \<le> 0)"
proof (cases "x = 0")
  case True
  then show ?thesis by (simp add: to_double_def)
next
  case False
  let ?u = "pow2 (double_exponent x - 52)"
  have "x / ?u \<le> 0" using assms pow2_pos [of "double_exponent x - 52"]
    by (simp add: divide_nonpos_pos)
  then have "round_even (x / ?u) \<le> 0" by (rule round_even_nonpos)
  then have "of_int (round_even (x / ?u)) * ?u \<le> 0"
    using pow2_pos [of "double_exponent x - 52"] by (simp add: mult_nonpos_nonneg)
  moreover have "0 < max_double"
    using pow2_pos [of 1023] pow2_mono [of "- 52" 0] by (simp add: max_double_def pow2_0)
  ultimately show ?thesis
    using False by (auto simp: to_double_def Let_def)
qed


lemma max_double_pos: "0 < max_double"
  using pow2_pos [of 1023] pow2_mono [of "- 52" 0] by (simp add: max_double_def pow2_0)

lemma pow2_le_iff: "pow2 a \<le> pow2 b \<longleftrightarrow> a \<le> b"
  by (simp add: pow2_def)

lemma pow2_le_imp_floor_log:
  assumes "pow2 k \<le> x"
  shows "k \<le> \<lfloor>log 2 x\<rfloor>"
proof -
  have "0 < x" using assms pow2_pos [of k] by linarith
  with assms have "log 2 (pow2 k) \<le> log 2 x"
    using pow2_pos [of k] by (simp add: log_le_cancel_iff)
  then show ?thesis by (simp add: log_pow2 le_floor_iff)
qed

lemma pow2_floor_log_le:
  assumes "0 < x"
  shows "pow2 \<lfloor>log 2 x\<rfloor> \<le> x"
proof -
  have "of_int \<lfloor>log 2 x\<rfloor> \<le> log 2 x" by simp
  then have "2 powr of_int \<lfloor>log 2 x\<rfloor> \<le> 2 powr log 2 x"
    by (simp only: powr_le_cancel_iff [of 2]) 
  with assms show ?thesis by (simp add: pow2_def)
qed

lemma to_double_lower:
  assumes "pow2 k \<le> x" and "- 1074 \<le> k"
  shows "to_double x = PInf \<or> (\<exists>y. to_double x = Fin y \<and> pow2 k \<le> y)"
proof -
  have x: "0 < x" using assms(1) pow2_pos [of k] by linarith
  define e where "e = double_exponent x"
  define u where "u = pow2 (e - 52)"
  define y where "y = of_int (round_even (x / u)) * u"
  have u: "0 < u" by (simp add: u_def pow2_pos)
  define L where "L = \<lfloor>log 2 x\<rfloor>"
  have eL: "e = max L (- 1022)"
    using x by (simp add: e_def double_exponent_def L_def)
  have low: "pow2 k \<le> y"
  proof (cases "- 1022 \<le> L")
    case True
    with eL have "e = L" by (auto simp: max_def)
    then have e: "e = \<lfloor>log 2 x\<rfloor>" by (simp only: L_def)
    have "pow2 e \<le> x" unfolding e using x by (rule pow2_floor_log_le)
    moreover have "pow2 e = of_int (2 ^ 52) * u"
      unfolding u_def using pow2_add [of 52 "e - 52"] pow2_nat [of 52] by simp
    ultimately have "of_int (2 ^ 52) \<le> x / u"
      using u by (simp add: pos_le_divide_eq)
    then have "2 ^ 52 \<le> round_even (x / u)" by (rule round_even_ge)
    then have "of_int (2 ^ 52) * u \<le> y"
      unfolding y_def using u by (simp only: mult_le_cancel_right_pos of_int_le_iff)
    moreover have "k \<le> e" unfolding e using assms(1) by (rule pow2_le_imp_floor_log)
    ultimately show ?thesis
      using \<open>pow2 e = of_int (2 ^ 52) * u\<close> pow2_mono [of k e] by linarith
  next
    case False
    with eL have e: "e = - 1022" by (auto simp: max_def)
    from assms(2) obtain n :: nat where n: "k + 1074 = int n"
      by (metis add.commute diff_ge_0_iff_ge diff_minus_eq_add nonneg_int_cases)
    have "pow2 k = pow2 (int n) * pow2 (- 1074)"
      using n by (simp flip: pow2_add) (smt (verit) n)
    then have pk: "pow2 k = of_int (2 ^ n) * u"
      by (simp add: u_def e pow2_nat)
    with assms(1) have "of_int (2 ^ n) \<le> x / u"
      using u by (simp add: pos_le_divide_eq)
    then have "2 ^ n \<le> round_even (x / u)" by (rule round_even_ge)
    then have "of_int (2 ^ n) * u \<le> y"
      unfolding y_def using u by (simp only: mult_le_cancel_right_pos of_int_le_iff)
    with pk show ?thesis by simp
  qed
  then have "0 < y" using pow2_pos [of k] by linarith
  then have "\<not> y < - max_double" using max_double_pos by linarith
  moreover have "to_double x =
      (if max_double < y then PInf else if y < - max_double then NInf else Fin y)"
    using x by (simp add: to_double_def Let_def y_def u_def e_def)
  ultimately show ?thesis using low by auto
qed

lemma to_double_pow2:
  assumes "- 1074 \<le> k"
  shows "to_double (pow2 k) = (if k \<le> 1023 then Fin (pow2 k) else PInf)"
proof -
  have x: "pow2 k \<noteq> 0" using pow2_pos [of k] by simp
  define e where "e = double_exponent (pow2 k)"
  have e: "e = max k (- 1022)"
    using pow2_pos [of k] by (simp add: e_def double_exponent_def log_pow2)
  with assms have "0 \<le> k - e + 52" by (simp add: max_def)
  then obtain n :: nat where n: "k - e + 52 = int n" by (metis nonneg_int_cases)
  have "pow2 k = pow2 (int n) * pow2 (e - 52)"
    using n by (simp flip: pow2_add) (smt (verit) n)
  then have "pow2 k / pow2 (e - 52) = of_int (2 ^ n)"
    using pow2_pos [of "e - 52"] by (simp add: pow2_nat)
  then have "round_even (pow2 k / pow2 (e - 52)) = 2 ^ n"
    by (simp only: round_even_of_int)
  then have y: "of_int (round_even (pow2 k / pow2 (e - 52))) * pow2 (e - 52) = pow2 k"
    using \<open>pow2 k = pow2 (int n) * pow2 (e - 52)\<close> by (simp add: pow2_nat)
  have cmp: "max_double < pow2 k \<longleftrightarrow> \<not> k \<le> 1023"
  proof (cases "k \<le> 1023")
    case True
    then have "pow2 k \<le> pow2 1023" by (rule pow2_mono)
    moreover have "pow2 1023 \<le> max_double"
      using pow2_mono [of "- 52" 0] pow2_pos [of 1023]
      by (simp add: max_double_def pow2_0)
    ultimately show ?thesis using True by simp
  next
    case False
    then have "pow2 1024 \<le> pow2 k" by (intro pow2_mono) simp
    moreover have "pow2 1024 = 2 * pow2 1023"
      using pow2_add [of 1 1023] by (simp add: pow2_def)
    moreover have "max_double < 2 * pow2 1023"
      using pow2_pos [of "- 52"] pow2_pos [of 1023] by (simp add: max_double_def)
    ultimately show ?thesis using False by simp
  qed
  have "\<not> pow2 k < - max_double"
    using pow2_pos [of k] max_double_pos by linarith
  then show ?thesis
    using x y cmp by (simp add: to_double_def Let_def e_def [symmetric])
qed

lemma to_double_0: "to_double 0 = Fin 0"
  by (simp add: to_double_def)

lemma to_double_1: "to_double 1 = Fin 1"
  using to_double_pow2 [of 0] by (simp add: pow2_0)

section \<open>Cosine similarity\<close>

lemma foldl_cosine_sums:
  "length xs = length ys \<Longrightarrow>
   snd (foldl (\<lambda>(dot, na, nb) (x, y). (fadd dot (fmul x y), fadd na (fmul x x), fadd nb (fmul y y)))
       (d, a, b) (zip xs ys))
     = (foldl (\<lambda>a x. fadd a (fmul x x)) a xs, foldl (\<lambda>a x. fadd a (fmul x x)) b ys)"
  by (induction xs ys arbitrary: d a b rule: list_induct2) simp_all

lemma cosine_sums_norms:
  assumes "length xs = length ys"
  shows "snd (cosine_sums xs ys) = (sum_squares xs, sum_squares ys)"
  unfolding cosine_sums_def sum_squares_def using assms by (rule foldl_cosine_sums)

lemma is_double_0: "is_double 0"
  by (auto simp: is_double_def intro: exI [of _ 0])

lemma norm_value_to_double: "0 \<le> x \<Longrightarrow> norm_value (to_double x)"
  using to_double_nonneg [of x] to_double_multiple [of x]
  by (auto simp: norm_value_def)

lemma norm_value_square: "norm_value (fmul x x)"
  by (cases x) (simp_all add: norm_value_to_double, simp_all add: norm_value_def)

lemma norm_value_add: "norm_value a \<Longrightarrow> norm_value b \<Longrightarrow> norm_value (fadd a b)"
  by (cases a; cases b) (simp_all add: norm_value_def norm_value_to_double [unfolded norm_value_def])

lemma norm_value_foldl:
  "norm_value a \<Longrightarrow> norm_value (foldl (\<lambda>a x. fadd a (fmul x x)) a xs)"
  by (induction xs arbitrary: a) (simp_all add: norm_value_add norm_value_square)

lemma norm_value_sum_squares: "norm_value (sum_squares xs)"
  unfolding sum_squares_def by (rule norm_value_foldl) (simp add: norm_value_def is_double_0)

lemma foldl_zero_squares:
  "\<forall>x\<in>set xs. x = Fin 0 \<Longrightarrow> foldl (\<lambda>a x. fadd a (fmul x x)) (Fin 0) xs = Fin 0"
  by (induction xs) (simp_all add: to_double_0)

lemma sum_squares_zero: "\<forall>x\<in>set xs. x = Fin 0 \<Longrightarrow> sum_squares xs = Fin 0"
  unfolding sum_squares_def by (rule foldl_zero_squares)

lemma is_double_pos_lower:
  assumes "is_double r" and "0 < r"
  shows "pow2 (- 1074) \<le> r"
proof -
  from assms(1) obtain m :: int where m: "r = of_int m * pow2 (- 1074)"
    unfolding is_double_def by blast
  with assms(2) have "0 < of_int m * pow2 (- 1074)" by simp
  then have "0 < m" using pow2_pos [of "- 1074"]
    by (simp add: zero_less_mult_iff)
  then have "(1::real) \<le> of_int m" by simp
  then have "1 * pow2 (- 1074) \<le> of_int m * pow2 (- 1074)"
    using pow2_pos [of "- 1074"] by (simp only: mult_le_cancel_right_pos)
  with m show ?thesis by simp
qed

lemma sqrt_pow2: "sqrt (pow2 (2 * k)) = pow2 k"
proof -
  have "2 * k = k + k" by simp
  then have "pow2 (2 * k) = pow2 k * pow2 k"
    by (simp only: pow2_add)
  then have "sqrt (pow2 (2 * k)) = sqrt (pow2 k * pow2 k)"
    by (rule arg_cong)
  also have "\<dots> = sqrt (pow2 k) * sqrt (pow2 k)" by (rule real_sqrt_mult)
  also have "\<dots> = pow2 k" using pow2_pos [of k] by (simp only: real_sqrt_mult_self abs_of_pos)
  finally show ?thesis .
qed

lemma root_value_sqrt:
  assumes "norm_value v" and "v \<noteq> Fin 0"
  shows "root_value (fsqrt v)"
proof (cases v)
  case (Fin r)
  with assms have r: "0 < r" "is_double r" by (auto simp: norm_value_def)
  then have "pow2 (2 * (- 537)) \<le> r" using is_double_pos_lower by simp
  then have "sqrt (pow2 (2 * (- 537))) \<le> sqrt r" by (simp only: real_sqrt_le_iff)
  then have "pow2 (- 537) \<le> sqrt r" by (simp only: sqrt_pow2)
  from to_double_lower [OF this] have "root_value (to_double (sqrt r))"
    by (auto simp: root_value_def)
  with Fin r show ?thesis by simp
next
  case PInf
  then show ?thesis by (simp add: root_value_def)
next
  case NInf
  with assms(1) show ?thesis by (simp add: norm_value_def)
next
  case NaN
  then show ?thesis by (simp add: root_value_def)
qed

lemma root_value_product:
  assumes "root_value a" and "root_value b"
  shows "fmul a b \<noteq> Fin 0"
proof (cases a)
  case (Fin s)
  note a = this
  with assms(1) have s: "pow2 (- 537) \<le> s" by (simp add: root_value_def)
  show ?thesis
  proof (cases b)
    case (Fin t)
    with assms(2) have t: "pow2 (- 537) \<le> t" by (simp add: root_value_def)
    have "pow2 (- 1074) = pow2 (- 537) * pow2 (- 537)"
      using pow2_add [of "- 537" "- 537"] by simp
    also have "\<dots> \<le> s * t"
      using s t pow2_pos [of "- 537"] by (intro mult_mono) simp_all
    finally have "pow2 (- 1074) \<le> s * t" .
    from to_double_lower [OF this] pow2_pos [of "- 1074"]
    have "to_double (s * t) \<noteq> Fin 0" by auto
    with a Fin show ?thesis by simp
  next
    case PInf
    with a s pow2_pos [of "- 537"] show ?thesis by auto
  next
    case NInf
    with assms(2) show ?thesis by (simp add: root_value_def)
  next
    case NaN
    with a show ?thesis by simp
  qed
next
  case PInf
  with assms(2) pow2_pos [of "- 537"] show ?thesis
    by (cases b) (auto simp: root_value_def)
next
  case NInf
  with assms(1) show ?thesis by (simp add: root_value_def)
next
  case NaN
  then show ?thesis by simp
qed

lemma divisor_not_zero:
  assumes "length xs = length ys"
    and "cosine_sums xs ys = (dot, na, nb)" and "na \<noteq> Fin 0" and "nb \<noteq> Fin 0"
  shows "fmul (fsqrt na) (fsqrt nb) \<noteq> Fin 0"
proof -
  from cosine_sums_norms [OF assms(1)] assms(2)
  have "na = sum_squares xs" "nb = sum_squares ys" by simp_all
  then have "norm_value na" "norm_value nb" by (simp_all add: norm_value_sum_squares)
  then have "root_value (fsqrt na)" "root_value (fsqrt nb)"
    using assms(3,4) by (simp_all add: root_value_sqrt)
  then show ?thesis by (rule root_value_product)
qed

lemma cosineSimilarity_Vec:
  assumes "length xs = length ys" and "cosine_sums xs ys = (dot, na, nb)"
  shows "cosineSimilarity (Vec xs) (Vec ys) =
     (if na = Fin 0 \<or> nb = Fin 0 then Fin 0 else fdiv dot (fmul (fsqrt na) (fsqrt nb)))"
  using assms by (simp add: cosineSimilarity_def)

lemma cosineSimilarity_zero_vector:
  assumes "(\<forall>x\<in>set xs. x = Fin 0) \<or> (\<forall>y\<in>set ys. y = Fin 0)"
  shows "cosineSimilarity (Vec xs) (Vec ys) = Fin 0"
proof (cases "length xs = length ys")
  case False
  then show ?thesis by (simp add: cosineSimilarity_def)
next
  case True
  obtain dot na nb where sums: "cosine_sums xs ys = (dot, na, nb)"
    by (cases "cosine_sums xs ys") auto
  with cosine_sums_norms [OF True] have "na = sum_squares xs" "nb = sum_squares ys"
    by simp_all
  with assms have "na = Fin 0 \<or> nb = Fin 0"
    using sum_squares_zero by auto
  then show ?thesis
    unfolding cosineSimilarity_Vec [OF True sums] by simp
qed

text \<open>
  Claim C6. Cosine similarity is a function on every pair of values: it is 0 when one of
  them is not an array, when the two lengths differ and when a vector has norm zero (all
  its components are 0, or its sum of squares comes out as 0), and the score of a page
  whose embedding differs in length from the question's is 0. Where it divides, the divisor
  is not 0.
\<close>

theorem cosine_similarity_total:
  "(length xs \<noteq> length ys \<or> (\<forall>x\<in>set xs. x = Fin 0) \<or> (\<forall>y\<in>set ys. y = Fin 0)
        \<longrightarrow> cosineSimilarity (Vec xs) (Vec ys) = Fin 0)
   \<and> (length xs \<noteq> length ys \<longrightarrow> page_score (Vec xs) (Vec ys) = Fin 0)
   \<and> (length xs = length ys \<longrightarrow>
        (\<forall>dot na nb. cosine_sums xs ys = (dot, na, nb) \<longrightarrow>
           (na = Fin 0 \<or> nb = Fin 0 \<longrightarrow> cosineSimilarity (Vec xs) (Vec ys) = Fin 0)
           \<and> (na \<noteq> Fin 0 \<and> nb \<noteq> Fin 0 \<longrightarrow>
                fmul (fsqrt na) (fsqrt nb) \<noteq> Fin 0
                \<and> cosineSimilarity (Vec xs) (Vec ys) = fdiv dot (fmul (fsqrt na) (fsqrt nb)))))
   \<and> cosineSimilarity NotArray b = Fin 0 \<and> cosineSimilarity a NotArray = Fin 0"
proof (intro conjI impI allI)
  assume "length xs \<noteq> length ys \<or> (\<forall>x\<in>set xs. x = Fin 0) \<or> (\<forall>y\<in>set ys. y = Fin 0)"
  then show "cosineSimilarity (Vec xs) (Vec ys) = Fin 0"
    using cosineSimilarity_zero_vector [of xs ys] by (auto simp: cosineSimilarity_def)
next
  assume "length xs \<noteq> length ys"
  then show "page_score (Vec xs) (Vec ys) = Fin 0"
    by (auto simp: page_score_def)
next
  fix dot na nb
  assume len: "length xs = length ys" and sums: "cosine_sums xs ys = (dot, na, nb)"
  {
    assume "na = Fin 0 \<or> nb = Fin 0"
    then show "cosineSimilarity (Vec xs) (Vec ys) = Fin 0"
      unfolding cosineSimilarity_Vec [OF len sums] by simp
  }
  {
    assume nz: "na \<noteq> Fin 0 \<and> nb \<noteq> Fin 0"
    then show "fmul (fsqrt na) (fsqrt nb) \<noteq> Fin 0"
      using divisor_not_zero [OF len sums] by simp
    from nz show "cosineSimilarity (Vec xs) (Vec ys) = fdiv dot (fmul (fsqrt na) (fsqrt nb))"
      unfolding cosineSimilarity_Vec [OF len sums] by simp
  }
next
  show "cosineSimilarity NotArray b = Fin 0"
    by (simp add: cosineSimilarity_def)
  show "cosineSimilarity a NotArray = Fin 0"
    by (cases a) (simp_all add: cosineSimilarity_def)
qed

lemma cosine_sums_unit_same:
  "cosine_sums [Fin 1, Fin 0] [Fin 1, Fin 0] = (Fin 1, Fin 1, Fin 1)"
  by (simp add: cosine_sums_def to_double_0 to_double_1)

lemma cosine_sums_unit_other:
  "cosine_sums [Fin 1, Fin 0] [Fin 0, Fin 1] = (Fin 0, Fin 1, Fin 1)"
  by (simp add: cosine_sums_def to_double_0 to_double_1)

lemma cosine_unit_same: "cosineSimilarity (Vec [Fin 1, Fin 0]) (Vec [Fin 1, Fin 0]) = Fin 1"
  by (simp add: cosineSimilarity_def cosine_sums_unit_same to_double_1)

lemma cosine_unit_other: "cosineSimilarity (Vec [Fin 1, Fin 0]) (Vec [Fin 0, Fin 1]) = Fin 0"
  by (simp add: cosineSimilarity_def cosine_sums_unit_other to_double_1 to_double_0)

theorem cosine_similarity_total_witness:
  "cosineSimilarity (Vec [Fin 0, Fin 0]) (Vec [Fin 1, Fin 1]) = Fin 0
   \<and> cosineSimilarity (Vec [Fin 1, Fin 1]) (Vec [Fin 1, Fin 1, Fin 1]) = Fin 0
   \<and> page_score (Vec [Fin 1, Fin 1]) (Vec [Fin 1, Fin 1, Fin 1]) = Fin 0
   \<and> cosine_sums [Fin 1, Fin 0] [Fin 1, Fin 0] = (Fin 1, Fin 1, Fin 1)
   \<and> fmul (fsqrt (Fin 1)) (fsqrt (Fin 1)) \<noteq> Fin 0
   \<and> cosineSimilarity (Vec [Fin 1, Fin 0]) (Vec [Fin 1, Fin 0]) =
       fdiv (Fin 1) (fmul (fsqrt (Fin 1)) (fsqrt (Fin 1)))"
  using cosine_similarity_total [of "[Fin 0, Fin 0]" "[Fin 1, Fin 1]"]
    cosine_similarity_total [of "[Fin 1, Fin 1]" "[Fin 1, Fin 1, Fin 1]"]
    cosine_similarity_total [of "[Fin 1, Fin 0]" "[Fin 1, Fin 0]"]
    cosine_sums_unit_same
  by simp

section \<open>Ranking\<close>

lemma fdiv_double: "double_value (fdiv a b)"
  by (cases a; cases b) (auto simp: double_value_def is_double_0 to_double_multiple split: number.splits)

lemma cosineSimilarity_double: "double_value (cosineSimilarity a b)"
proof -
  have zero: "double_value (Fin 0)" by (simp add: double_value_def is_double_0)
  show ?thesis
    by (cases a; cases b)
      (simp_all add: cosineSimilarity_def zero fdiv_double split: prod.splits)
qed

lemma page_score_double: "double_value (page_score q e)"
proof -
  have zero: "double_value (Fin 0)" by (simp add: double_value_def is_double_0)
  show ?thesis
    by (cases q; cases e) (simp_all add: page_score_def zero cosineSimilarity_double)
qed

lemma is_double_diff:
  assumes "is_double x" and "is_double y"
  shows "is_double (y - x)"
proof -
  from assms obtain m n :: int where "x = of_int m * pow2 (- 1074)" "y = of_int n * pow2 (- 1074)"
    unfolding is_double_def by blast
  then have "y - x = of_int (n - m) * pow2 (- 1074)"
    by (simp add: algebra_simps)
  then show ?thesis unfolding is_double_def by blast
qed

lemma positive_to_double:
  assumes "is_double d"
  shows "positive (to_double d) \<longleftrightarrow> 0 < d"
proof (cases "0 < d")
  case True
  with assms have "pow2 (- 1074) \<le> d" by (rule is_double_pos_lower)
  from to_double_lower [OF this] pow2_pos [of "- 1074"] True show ?thesis
    by (auto simp: positive_def)
next
  case False
  then have "d \<le> 0" by simp
  from to_double_nonpos [OF this] False show ?thesis
    by (auto simp: positive_def)
qed

lemma positive_fsub:
  assumes "x \<noteq> NaN" and "y \<noteq> NaN" and "double_value x" and "double_value y"
  shows "positive (fsub y x) \<longleftrightarrow> \<not> score_ge x y"
proof (cases "\<exists>a b. x = Fin a \<and> y = Fin b")
  case True
  then obtain a b where ab: "x = Fin a" "y = Fin b" by blast
  with assms(3,4) have "is_double (b - a)"
    by (simp add: double_value_def is_double_diff)
  from positive_to_double [OF this] ab show ?thesis
    by (auto simp: fsub_def)
next
  case False
  with assms(1,2) show ?thesis
    by (cases x; cases y) (simp_all add: fsub_def positive_def)
qed

lemma score_ge_trans: "score_ge x y \<Longrightarrow> score_ge y z \<Longrightarrow> score_ge x z"
  by (cases x; cases y; cases z) simp_all

lemma score_ge_linear: "x \<noteq> NaN \<Longrightarrow> y \<noteq> NaN \<Longrightarrow> \<not> score_ge x y \<Longrightarrow> score_ge y x"
  by (cases x; cases y) simp_all

lemma score_ge_refl: "x \<noteq> NaN \<Longrightarrow> score_ge x x"
  by (cases x) simp_all

lemma mset_place: "mset (place cmp a bs) = add_mset a (mset bs)"
  by (induction bs) simp_all

lemma mset_array_sort: "mset (array_sort cmp xs) = mset xs"
  unfolding array_sort_def by (induction xs) (simp_all add: mset_place)

lemma set_array_sort: "set (array_sort cmp xs) = set xs"
  by (metis mset_array_sort set_mset_mset)

lemma length_array_sort: "length (array_sort cmp xs) = length xs"
  by (metis mset_array_sort size_mset)

lemma set_place: "set (place cmp a bs) = insert a (set bs)"
  by (metis mset_place set_mset_mset set_mset_add_mset_insert)

lemma place_ranked:
  assumes "sorted_wrt ranked_before bs"
    and "\<forall>b\<in>set bs. pageNumber a < pageNumber b"
    and "\<forall>b\<in>set (a # bs). score b \<noteq> NaN \<and> double_value (score b)"
  shows "sorted_wrt ranked_before (place by_score_desc a bs)"
  using assms
proof (induction bs)
  case Nil
  then show ?case by simp
next
  case (Cons b bs)
  from Cons.prems(3) have a: "score a \<noteq> NaN" "double_value (score a)"
    and b: "score b \<noteq> NaN" "double_value (score b)"
    by simp_all
  have pos: "positive (by_score_desc a b) \<longleftrightarrow> \<not> score_ge (score a) (score b)"
    unfolding by_score_desc_def by (rule positive_fsub [OF a(1) b(1) a(2) b(2)])
  show ?case
  proof (cases "score_ge (score a) (score b)")
    case False
    then have "score_ge (score b) (score a)"
      by (rule score_ge_linear [OF a(1) b(1)])
    moreover have "score b \<noteq> score a"
      using False score_ge_refl [OF a(1)] by auto
    ultimately have "ranked_before b a"
      by (simp add: ranked_before_def)
    moreover have "sorted_wrt ranked_before (place by_score_desc a bs)"
      using Cons by simp
    ultimately show ?thesis
      using False pos Cons.prems(1) by (simp add: set_place)
  next
    case True
    have "ranked_before a c" if "c \<in> set (b # bs)" for c
    proof -
      have "score_ge (score b) (score c)"
        using that Cons.prems(1) score_ge_refl [OF b(1)] by (auto simp: ranked_before_def)
      with True have "score_ge (score a) (score c)" by (rule score_ge_trans)
      moreover have "pageNumber a < pageNumber c"
        using that Cons.prems(2) by auto
      ultimately show ?thesis
        by (simp add: ranked_before_def)
    qed
    then show ?thesis
      using True pos Cons.prems(1) by simp
  qed
qed

lemma array_sort_ranked:
  assumes "sorted_wrt (\<lambda>a b. pageNumber a < pageNumber b) xs"
    and "\<forall>a\<in>set xs. score a \<noteq> NaN \<and> double_value (score a)"
  shows "sorted_wrt ranked_before (array_sort by_score_desc xs)"
  using assms
proof (induction xs)
  case Nil
  then show ?case by (simp add: array_sort_def)
next
  case (Cons a xs)
  have "array_sort by_score_desc (a # xs) = place by_score_desc a (array_sort by_score_desc xs)"
    by (simp add: array_sort_def)
  moreover have "sorted_wrt ranked_before (place by_score_desc a (array_sort by_score_desc xs))"
    using Cons by (intro place_ranked) (auto simp: set_array_sort)
  ultimately show ?case by simp
qed

lemma score_pages_pageNumbers:
  "map pageNumber (score_pages pages embs q) = [1..<Suc (length pages)]"
proof -
  have "map pageNumber (score_pages pages embs q) = map (\<lambda>p. fst p + 1) (enumerate 0 pages)"
    by (simp add: score_pages_def case_prod_beta)
  also have "\<dots> = map Suc [0..<length pages]"
    by (simp add: enumerate_eq_zip map_fst_zip_take flip: map_map [unfolded comp_def])
  also have "\<dots> = [1..<Suc (length pages)]"
    by (simp add: map_Suc_upt)
  finally show ?thesis .
qed

lemma score_pages_increasing:
  "sorted_wrt (\<lambda>a b. pageNumber a < pageNumber b) (score_pages pages embs q)"
proof -
  have "sorted_wrt (<) (map pageNumber (score_pages pages embs q))"
    unfolding score_pages_pageNumbers by (rule sorted_wrt_upt)
  then show ?thesis by (simp add: sorted_wrt_map)
qed

lemma score_pages_doubles: "\<forall>p\<in>set (score_pages pages embs q). double_value (score p)"
  by (auto simp: score_pages_def page_score_double)

lemma length_score_pages: "length (score_pages pages embs q) = length pages"
  by (simp add: score_pages_def)

lemma rank_take:
  "rank pages embs q k = take k (array_sort by_score_desc (score_pages pages embs q))"
  by (simp add: rank_def slice_def Let_def min_def)

lemma sorted_wrt_ranked_split:
  "sorted_wrt ranked_before xs \<Longrightarrow>
     sorted_wrt (\<lambda>a b. score_ge (score a) (score b)) xs
     \<and> sorted_wrt (\<lambda>a b. score a = score b \<longrightarrow> pageNumber a < pageNumber b) xs"
  by (induction xs) (auto simp: ranked_before_def)

text \<open>
  Claim C5. For \<open>k \<ge> 1\<close>, ranking with \<open>topK = k\<close> returns exactly \<open>min k n\<close> of the \<open>n\<close>
  scored pages. When no page's score is NaN they are in descending order of score, pages
  with the same score in ascending order of page number, and the pages left out score no
  higher than the pages returned.
\<close>

theorem rank_top_k:
  assumes "1 \<le> k"
  shows "length (rank pages embs q k) = min k (length pages)
     \<and> (\<exists>rest. mset (rank pages embs q k @ rest) = mset (score_pages pages embs q)
          \<and> ((\<forall>p\<in>set (score_pages pages embs q). score p \<noteq> NaN) \<longrightarrow>
               (\<forall>a\<in>set (rank pages embs q k). \<forall>b\<in>set rest. score_ge (score a) (score b))))
     \<and> ((\<forall>p\<in>set (score_pages pages embs q). score p \<noteq> NaN) \<longrightarrow>
          sorted_wrt (\<lambda>a b. score_ge (score a) (score b)) (rank pages embs q k)
          \<and> sorted_wrt (\<lambda>a b. score a = score b \<longrightarrow> pageNumber a < pageNumber b)
               (rank pages embs q k))"
proof -
  let ?sorted = "array_sort by_score_desc (score_pages pages embs q)"
  have len: "length (rank pages embs q k) = min k (length pages)"
    by (simp add: rank_take length_array_sort length_score_pages min.commute)
  have all: "mset (take k ?sorted @ drop k ?sorted) = mset (score_pages pages embs q)"
    by (simp add: mset_array_sort)
  have ordered: "sorted_wrt (\<lambda>a b. score_ge (score a) (score b)) (take k ?sorted)
      \<and> sorted_wrt (\<lambda>a b. score a = score b \<longrightarrow> pageNumber a < pageNumber b) (take k ?sorted)
      \<and> (\<forall>a\<in>set (take k ?sorted). \<forall>b\<in>set (drop k ?sorted). score_ge (score a) (score b))"
    if numbers: "\<forall>p\<in>set (score_pages pages embs q). score p \<noteq> NaN"
  proof -
    from numbers score_pages_doubles [of pages embs q]
    have "\<forall>p\<in>set (score_pages pages embs q). score p \<noteq> NaN \<and> double_value (score p)"
      by blast
    then have "sorted_wrt ranked_before ?sorted"
      by (rule array_sort_ranked [OF score_pages_increasing])
    then have "sorted_wrt ranked_before (take k ?sorted @ drop k ?sorted)"
      by simp
    then have top: "sorted_wrt ranked_before (take k ?sorted)"
      and rest: "\<forall>a\<in>set (take k ?sorted). \<forall>b\<in>set (drop k ?sorted). ranked_before a b"
      unfolding sorted_wrt_append by blast+
    from rest have "\<forall>a\<in>set (take k ?sorted). \<forall>b\<in>set (drop k ?sorted). score_ge (score a) (score b)"
      by (simp add: ranked_before_def)
    with sorted_wrt_ranked_split [OF top] show ?thesis by blast
  qed
  from all ordered
  have "\<exists>rest. mset (take k ?sorted @ rest) = mset (score_pages pages embs q)
      \<and> ((\<forall>p\<in>set (score_pages pages embs q). score p \<noteq> NaN) \<longrightarrow>
           (\<forall>a\<in>set (take k ?sorted). \<forall>b\<in>set rest. score_ge (score a) (score b)))"
    by blast
  with len ordered show ?thesis unfolding rank_take by blast
qed

lemma score_pages_example:
  "score_pages [''a'', ''b'', ''c''] [Vec [Fin 0, Fin 1], Vec [Fin 1, Fin 0], Vec [Fin 1, Fin 0]]
      (Vec [Fin 1, Fin 0]) =
     [\<lparr>pageNumber = 1, page_text = ''a'', score = Fin 0\<rparr>,
      \<lparr>pageNumber = 2, page_text = ''b'', score = Fin 1\<rparr>,
      \<lparr>pageNumber = 3, page_text = ''c'', score = Fin 1\<rparr>]"
  by (simp add: score_pages_def enumerate_eq_zip embedding_at_def page_score_def
      cosine_unit_same cosine_unit_other upt_rec)

lemma by_score_desc_example:
  "positive (fsub (Fin 1) (Fin 0))" "\<not> positive (fsub (Fin 1) (Fin 1))"
  "\<not> positive (fsub (Fin 0) (Fin 1))"
proof -
  have "double_value (Fin 0)" "double_value (Fin 1)"
    using to_double_multiple [OF to_double_0] to_double_multiple [OF to_double_1]
    by (simp_all add: double_value_def)
  then show "positive (fsub (Fin 1) (Fin 0))" "\<not> positive (fsub (Fin 1) (Fin 1))"
    "\<not> positive (fsub (Fin 0) (Fin 1))"
    by (simp_all add: positive_fsub)
qed

lemma rank_example:
  "rank [''a'', ''b'', ''c''] [Vec [Fin 0, Fin 1], Vec [Fin 1, Fin 0], Vec [Fin 1, Fin 0]]
      (Vec [Fin 1, Fin 0]) 2 =
     [\<lparr>pageNumber = 2, page_text = ''b'', score = Fin 1\<rparr>,
      \<lparr>pageNumber = 3, page_text = ''c'', score = Fin 1\<rparr>]"
  by (simp add: rank_def score_pages_example array_sort_def by_score_desc_def
      by_score_desc_example slice_def)

theorem rank_top_k_witness:
  "(1::nat) \<le> 2
   \<and> map score (score_pages [''a'', ''b'', ''c'']
        [Vec [Fin 0, Fin 1], Vec [Fin 1, Fin 0], Vec [Fin 1, Fin 0]] (Vec [Fin 1, Fin 0])) =
       [Fin 0, Fin 1, Fin 1]
   \<and> length (rank [''a'', ''b'', ''c'']
        [Vec [Fin 0, Fin 1], Vec [Fin 1, Fin 0], Vec [Fin 1, Fin 0]] (Vec [Fin 1, Fin 0]) 2) = 2
   \<and> sorted_wrt (\<lambda>a b. score_ge (score a) (score b))
        (rank [''a'', ''b'', ''c'']
           [Vec [Fin 0, Fin 1], Vec [Fin 1, Fin 0], Vec [Fin 1, Fin 0]] (Vec [Fin 1, Fin 0]) 2)
   \<and> sorted_wrt (\<lambda>a b. score a = score b \<longrightarrow> pageNumber a < pageNumber b)
        (rank [''a'', ''b'', ''c'']
           [Vec [Fin 0, Fin 1], Vec [Fin 1, Fin 0], Vec [Fin 1, Fin 0]] (Vec [Fin 1, Fin 0]) 2)
   \<and> map pageNumber (rank [''a'', ''b'', ''c'']
        [Vec [Fin 0, Fin 1], Vec [Fin 1, Fin 0], Vec [Fin 1, Fin 0]] (Vec [Fin 1, Fin 0]) 2) = [2, 3]"
proof -
  have numbers: "\<forall>p\<in>set (score_pages [''a'', ''b'', ''c'']
      [Vec [Fin 0, Fin 1], Vec [Fin 1, Fin 0], Vec [Fin 1, Fin 0]] (Vec [Fin 1, Fin 0])). score p \<noteq> NaN"
    by (simp add: score_pages_example)
  from rank_top_k [of 2 "[''a'', ''b'', ''c'']"
      "[Vec [Fin 0, Fin 1], Vec [Fin 1, Fin 0], Vec [Fin 1, Fin 0]]" "Vec [Fin 1, Fin 0]"] numbers
  have "length (rank [''a'', ''b'', ''c'']
        [Vec [Fin 0, Fin 1], Vec [Fin 1, Fin 0], Vec [Fin 1, Fin 0]] (Vec [Fin 1, Fin 0]) 2) = 2
   \<and> sorted_wrt (\<lambda>a b. score_ge (score a) (score b))
        (rank [''a'', ''b'', ''c'']
           [Vec [Fin 0, Fin 1], Vec [Fin 1, Fin 0], Vec [Fin 1, Fin 0]] (Vec [Fin 1, Fin 0]) 2)
   \<and> sorted_wrt (\<lambda>a b. score a = score b \<longrightarrow> pageNumber a < pageNumber b)
        (rank [''a'', ''b'', ''c'']
           [Vec [Fin 0, Fin 1], Vec [Fin 1, Fin 0], Vec [Fin 1, Fin 0]] (Vec [Fin 1, Fin 0]) 2)"
    by simp
  then show ?thesis
    by (simp add: score_pages_example rank_example)
qed

text \<open>
  A question and a page whose components are large: the sums of the page overflow, its
  score is NaN, and the ranking leaves a page of score 0 in front of a page of score 1.
\<close>

lemma pow2_mult: "pow2 a * pow2 b = pow2 (a + b)"
  by (simp add: pow2_add)

lemma fmul_pow2:
  "- 1074 \<le> a + b \<Longrightarrow>
     fmul (Fin (pow2 a)) (Fin (pow2 b)) = (if a + b \<le> 1023 then Fin (pow2 (a + b)) else PInf)"
  by (simp add: pow2_mult to_double_pow2)

lemma fsqrt_pow2: "- 1074 \<le> k \<Longrightarrow> k \<le> 1023 \<Longrightarrow> fsqrt (Fin (pow2 (2 * k))) = Fin (pow2 k)"
  using pow2_pos [of "2 * k"] by (simp add: sqrt_pow2 to_double_pow2 not_less less_imp_le)

lemma fadd_0_left: "- 1074 \<le> k \<Longrightarrow> k \<le> 1023 \<Longrightarrow> fadd (Fin 0) (Fin (pow2 k)) = Fin (pow2 k)"
  by (simp add: to_double_pow2)

lemma fadd_0_right: "- 1074 \<le> k \<Longrightarrow> k \<le> 1023 \<Longrightarrow> fadd (Fin (pow2 k)) (Fin 0) = Fin (pow2 k)"
  by (simp add: to_double_pow2)

lemma fmul_0: "fmul (Fin x) (Fin 0) = Fin 0" "fmul (Fin 0) (Fin x) = Fin 0"
  by (simp_all add: to_double_0)

lemma fadd_0_0: "fadd (Fin 0) (Fin 0) = Fin 0"
  by (simp add: to_double_0)

lemma fadd_0_1: "fadd (Fin 0) (Fin 1) = Fin 1" "fadd (Fin 1) (Fin 0) = Fin 1"
  by (simp_all add: to_double_1)

lemma fmul_1: "fmul (Fin 1) (Fin 1) = Fin 1"
  by (simp add: to_double_1)

lemma fmul_pow2_1: "- 1074 \<le> k \<Longrightarrow> k \<le> 1023 \<Longrightarrow> fmul (Fin (pow2 k)) (Fin 1) = Fin (pow2 k)"
  by (simp add: to_double_pow2)

lemma pow2_not_0: "pow2 k \<noteq> 0" "Fin (pow2 k) \<noteq> Fin 0"
  using pow2_pos [of k] by simp_all

lemma cosine_sums_large_1:
  "cosine_sums [Fin (pow2 500), Fin 0] [Fin 0, Fin 1] = (Fin 0, Fin (pow2 1000), Fin 1)"
  using fmul_pow2 [of 500 500] fadd_0_left [of 1000] fadd_0_right [of 1000]
  by (simp add: cosine_sums_def fmul_0 fadd_0_0 fadd_0_1 fmul_1 del: fadd.simps fmul.simps)

lemma cosine_sums_large_2:
  "cosine_sums [Fin (pow2 500), Fin 0] [Fin (pow2 600), Fin 0] = (PInf, Fin (pow2 1000), PInf)"
  using fmul_pow2 [of 500 500] fmul_pow2 [of 500 600] fmul_pow2 [of 600 600]
    fadd_0_left [of 1000] fadd_0_right [of 1000]
  by (simp add: cosine_sums_def fmul_0 fadd_0_0 del: fmul.simps fadd.simps(1)) 

lemma cosine_sums_large_3:
  "cosine_sums [Fin (pow2 500), Fin 0] [Fin 1, Fin 0] = (Fin (pow2 500), Fin (pow2 1000), Fin 1)"
  using fmul_pow2 [of 500 500] fmul_pow2_1 [of 500] fadd_0_left [of 1000] fadd_0_right [of 1000]
    fadd_0_left [of 500] fadd_0_right [of 500]
  by (simp add: cosine_sums_def fmul_0 fadd_0_0 fadd_0_1 fmul_1 del: fadd.simps fmul.simps)

lemma fsqrt_1: "fsqrt (Fin 1) = Fin 1"
  by (simp add: to_double_1)

lemma divisor_large: "fmul (fsqrt (Fin (pow2 1000))) (fsqrt (Fin 1)) = Fin (pow2 500)"
  using fsqrt_pow2 [of 500] fmul_pow2_1 [of 500] by (simp add: fsqrt_1 del: fsqrt.simps fmul.simps)

lemma cosine_large_1:
  "cosineSimilarity (Vec [Fin (pow2 500), Fin 0]) (Vec [Fin 0, Fin 1]) = Fin 0"
  by (simp add: cosineSimilarity_def cosine_sums_large_1 divisor_large pow2_not_0 to_double_0
      del: fsqrt.simps fmul.simps)

lemma cosine_large_2:
  "cosineSimilarity (Vec [Fin (pow2 500), Fin 0]) (Vec [Fin (pow2 600), Fin 0]) = NaN"
  using fsqrt_pow2 [of 500] pow2_pos [of 500]
  by (simp add: cosineSimilarity_def cosine_sums_large_2 pow2_not_0 del: fsqrt.simps(1))

lemma cosine_large_3:
  "cosineSimilarity (Vec [Fin (pow2 500), Fin 0]) (Vec [Fin 1, Fin 0]) = Fin 1"
  by (simp add: cosineSimilarity_def cosine_sums_large_3 divisor_large pow2_not_0 to_double_1
      del: fsqrt.simps fmul.simps)

lemma score_pages_large:
  "score_pages [''a'', ''b'', ''c''] [Vec [Fin 0, Fin 1], Vec [Fin (pow2 600), Fin 0], Vec [Fin 1, Fin 0]]
      (Vec [Fin (pow2 500), Fin 0]) =
     [\<lparr>pageNumber = 1, page_text = ''a'', score = Fin 0\<rparr>,
      \<lparr>pageNumber = 2, page_text = ''b'', score = NaN\<rparr>,
      \<lparr>pageNumber = 3, page_text = ''c'', score = Fin 1\<rparr>]"
  by (simp add: score_pages_def enumerate_eq_zip embedding_at_def page_score_def
      cosine_large_1 cosine_large_2 cosine_large_3 upt_rec)

text \<open>
  Claim C5 as stated fails: with the question vector \<open>[2\<^sup>5\<^sup>0\<^sup>0, 0]\<close> and the page vectors
  \<open>[0, 1]\<close>, \<open>[2\<^sup>6\<^sup>0\<^sup>0, 0]\<close> and \<open>[1, 0]\<close> the three pages come back in page order
  with the scores 0, NaN and 1, and 0 is not at least 1.
\<close>

theorem rank_top_k_counterexample:
  "rank [''a'', ''b'', ''c''] [Vec [Fin 0, Fin 1], Vec [Fin (pow2 600), Fin 0], Vec [Fin 1, Fin 0]]
      (Vec [Fin (pow2 500), Fin 0]) 5 =
     [\<lparr>pageNumber = 1, page_text = ''a'', score = Fin 0\<rparr>,
      \<lparr>pageNumber = 2, page_text = ''b'', score = NaN\<rparr>,
      \<lparr>pageNumber = 3, page_text = ''c'', score = Fin 1\<rparr>]
   \<and> \<not> score_ge (Fin 0) (Fin 1)"
  by (simp add: rank_def score_pages_large array_sort_def by_score_desc_def fsub_def
      positive_def slice_def)

section \<open>Pages of a text\<close>

lemma split_on_pieces: "p \<in> set (split_on c s) \<Longrightarrow> set p \<subseteq> set s"
proof (induction s arbitrary: p)
  case Nil
  then show ?case by simp
next
  case (Cons x xs)
  show ?case
  proof (cases "split_on c xs")
    case Nil
    with Cons.prems show ?thesis by (auto split: if_splits)
  next
    case (Cons w ws)
    have "set w \<subseteq> set xs" and "\<forall>q\<in>set ws. set q \<subseteq> set xs"
      using Cons.IH Cons by simp_all
    with Cons Cons.prems show ?thesis by (auto split: if_splits)
  qed
qed

lemma trim_spaces:
  assumes "\<forall>c\<in>set s. is_space c"
  shows "trim s = []"
  using assms by (auto simp: trim_def dest: set_dropWhileD)

lemma split_ws_spaces: "\<forall>c\<in>set s. is_space c \<Longrightarrow> filter_Boolean (split_ws s) = []"
proof (cases s)
  case Nil
  then show ?thesis by (simp add: split_ws.simps [of "[]"] filter_Boolean_def)
next
  case (Cons c cs)
  assume sp: "\<forall>c\<in>set s. is_space c"
  with Cons have w: "takeWhile (\<lambda>c. \<not> is_space c) s = []"
    and r: "dropWhile (\<lambda>c. \<not> is_space c) s = s"
    by simp_all
  from sp have d: "dropWhile is_space s = []" by simp
  have "split_ws s = [] # split_ws []"
    by (subst split_ws.simps) (simp add: w r d Cons [symmetric] Let_def, simp add: Cons)
  also have "\<dots> = [[], []]"
    by (simp add: split_ws.simps [of "[]"])
  finally show ?thesis by (simp add: filter_Boolean_def)
qed

lemma chunk_loop_no_words: "chunk_loop c m [] i ps = ps"
  by (simp add: chunk_loop.simps)

text \<open>
  Claim C8. A text that is empty or consists of white space only gives exactly one page,
  the text itself, for every chunk size and every page limit of at least 1 (the limit in
  use is 400).
\<close>

theorem blank_text_one_page:
  assumes "\<forall>ch\<in>set fullText. is_space ch" and "1 \<le> m"
  shows "split_into_pages c m fullText = [fullText]"
proof -
  have "filter_Boolean (map trim (split_on form_feed fullText)) = []"
  proof -
    have "trim p = []" if "p \<in> set (split_on form_feed fullText)" for p
      using split_on_pieces [OF that] assms(1) by (intro trim_spaces) auto
    then show ?thesis by (simp add: filter_Boolean_def filter_empty_conv)
  qed
  moreover have "chunk_loop c m (filter_Boolean (split_ws fullText)) 0 [] = []"
    using split_ws_spaces [OF assms(1)] by (simp add: chunk_loop_no_words)
  ultimately show ?thesis
    using assms(2) by (simp add: split_into_pages_def)
qed

theorem blank_text_one_page_witness:
  "is_space CHR '' '' \<and> is_space form_feed \<and> is_space CHR 0x0A \<and> (1::nat) \<le> 400
   \<and> split_into_pages 300 400 [CHR '' '', form_feed, CHR 0x0A] = [[CHR '' '', form_feed, CHR 0x0A]]
   \<and> split_into_pages 300 400 [] = [[]]"
proof -
  have h: "\<forall>ch\<in>set [CHR '' '', form_feed, CHR 0x0A]. is_space ch"
    by (simp add: is_space_def form_feed_def)
  show ?thesis
    using h blank_text_one_page [OF h, of 400 300] blank_text_one_page [of "[]" 400 300]
    by simp
qed

lemma chunk_index_less:
  assumes "1 \<le> (c::nat)"
  shows "j * c < n \<longleftrightarrow> j < (n + c - 1) div c"
proof -
  have "j < (n + c - 1) div c \<longleftrightarrow> Suc j \<le> (n + c - 1) div c" by auto
  also have "\<dots> \<longleftrightarrow> Suc j * c \<le> n + c - 1"
    using assms by (simp add: less_eq_div_iff_mult_less_eq)
  also have "\<dots> \<longleftrightarrow> j * c < n"
    using assms by auto
  finally show ?thesis by simp
qed

lemma ceiling_div_nat:
  assumes "1 \<le> (c::nat)"
  shows "nat \<lceil>real n / real c\<rceil> = (n + c - 1) div c"
proof -
  let ?q = "(n + c - 1) div c"
  have up: "n \<le> ?q * c"
  proof -
    have "n + c - 1 = ?q * c + (n + c - 1) mod c" by simp
    moreover have "(n + c - 1) mod c < c"
      using assms by simp
    ultimately show ?thesis using assms by linarith
  qed
  have lo: "?q * c < n + c"
  proof -
    have "?q * c \<le> n + c - 1" by simp
    then show ?thesis using assms by linarith
  qed
  have "\<lceil>real n / real c\<rceil> = int ?q"
  proof (rule ceiling_unique)
    have "real ?q * real c < real n + real c"
      using lo by (metis of_nat_add of_nat_less_iff of_nat_mult)
    then have "(real ?q - 1) * real c < real n"
      by (simp add: algebra_simps)
    then show "of_int (int ?q) - 1 < real n / real c"
      using assms by (simp add: pos_less_divide_eq)
    have "real n \<le> real ?q * real c"
      using up by (metis of_nat_le_iff of_nat_mult)
    then show "real n / real c \<le> of_int (int ?q)"
      using assms by (simp add: pos_divide_le_eq)
  qed
  then show ?thesis by simp
qed

lemma chunk_loop_pages:
  assumes "1 \<le> c"
  shows "chunk_loop c m ws (j * c) (map (\<lambda>k. join '' '' (slice ws (k * c) (k * c + c))) [0..<j]) =
     map (\<lambda>k. join '' '' (slice ws (k * c) (k * c + c)))
       [0..<(if j * c < length ws then max (Suc j) (min ((length ws + c - 1) div c) m) else j)]"
proof (induction "length ws - j * c" arbitrary: j rule: less_induct)
  case less
  let ?f = "\<lambda>k. join '' '' (slice ws (k * c) (k * c + c))"
  let ?N = "(length ws + c - 1) div c"
  show ?case
  proof (cases "j * c < length ws")
    case False
    then show ?thesis by (simp add: chunk_loop.simps)
  next
    case True
    have push: "map ?f [0..<j] @ [?f j] = map ?f [0..<Suc j]" by simp
    show ?thesis
    proof (cases "m \<le> Suc j")
      case stop: True
      then have "max (Suc j) (min ?N m) = Suc j" by simp
      moreover have "chunk_loop c m ws (j * c) (map ?f [0..<j]) = map ?f [0..<Suc j]"
        using True stop by (subst chunk_loop.simps) (simp add: Let_def)
      ultimately show ?thesis using True by simp
    next
      case go: False
      have step: "chunk_loop c m ws (j * c) (map ?f [0..<j]) =
          chunk_loop c m ws (Suc j * c) (map ?f [0..<Suc j])"
        using True go by (subst chunk_loop.simps) (simp add: Let_def add.commute)
      have "length ws - Suc j * c < length ws - j * c"
        using True assms by simp
      from less [OF this] have IH: "chunk_loop c m ws (Suc j * c) (map ?f [0..<Suc j]) =
          map ?f [0..<(if Suc j * c < length ws then max (Suc (Suc j)) (min ?N m) else Suc j)]" .
      have "(if Suc j * c < length ws then max (Suc (Suc j)) (min ?N m) else Suc j) =
          max (Suc j) (min ?N m)"
        using True go chunk_index_less [OF assms, of j "length ws"]
          chunk_index_less [OF assms, of "Suc j" "length ws"]
        by (auto simp: max_def min_def)
      with step IH True show ?thesis by simp
    qed
  qed
qed


text \<open>The tokenizer of the code gives the words of the text.\<close>

lemma spec_words_Nil: "spec_words [] = []"
  by (subst spec_words.simps) (simp only: dropWhile.simps Let_def if_True simp_thms)

lemma spec_words_dropWhile: "spec_words (dropWhile is_space s) = spec_words s"
  by (subst spec_words.simps, subst (2) spec_words.simps) (simp add: dropWhile_idem)

lemma split_ws_words: "filter_Boolean (split_ws s) = spec_words s"
proof (induction s rule: split_ws.induct)
  case (1 s)
  let ?w = "takeWhile (\<lambda>c. \<not> is_space c) s"
  let ?r = "dropWhile (\<lambda>c. \<not> is_space c) s"
  show ?case
  proof (cases "?r = []")
    case True
    then have all: "\<forall>c\<in>set s. \<not> is_space c" by simp
    then have w: "?w = s" by simp
    have d: "dropWhile is_space s = s"
      using all by (cases s) auto
    have "split_ws s = [s]"
      using True w by (subst split_ws.simps) (simp add: Let_def)
    moreover have "spec_words s = (if s = [] then [] else [s])"
    proof (cases "s = []")
      case True
      then show ?thesis by (simp add: spec_words_Nil)
    next
      case False
      have "dropWhile is_space s \<noteq> []" using d False by simp
      then have "spec_words s = ?w # spec_words ?r"
        by (subst spec_words.simps) (simp only: Let_def d if_False)
      also have "\<dots> = [s]"
        unfolding True w by (simp only: spec_words_Nil)
      finally show ?thesis using False by simp
    qed
    ultimately show ?thesis by (simp add: filter_Boolean_def)
  next
    case False
    have IH: "filter_Boolean (split_ws (dropWhile is_space ?r)) = spec_words (dropWhile is_space ?r)"
      using 1 False by simp
    have code: "split_ws s = ?w # split_ws (dropWhile is_space ?r)"
      by (subst split_ws.simps) (simp only: Let_def False if_False)
    show ?thesis
    proof (cases "?w = []")
      case True
      then have "?r = s" by (metis append_Nil takeWhile_dropWhile_id)
      then show ?thesis
        using True code IH by (simp add: filter_Boolean_def spec_words_dropWhile)
    next
      case nonempty: False
      then obtain c cs where s: "s = c # cs" and c: "\<not> is_space c"
        by (cases s) (auto split: if_splits)
      then have d: "dropWhile is_space s = s" by simp
      have "dropWhile is_space s \<noteq> []" using d s by simp
      then have "spec_words s = ?w # spec_words ?r"
        by (subst spec_words.simps) (simp only: Let_def d if_False)
      then show ?thesis
        using nonempty code IH by (simp add: filter_Boolean_def spec_words_dropWhile)
    qed
  qed
qed


lemma word_starts_spaces:
  "\<forall>c\<in>set xs. is_space c \<Longrightarrow> word_starts p (xs @ ys) = word_starts (if xs = [] then p else True) ys"
  by (induction xs arbitrary: p) auto

lemma word_starts_word:
  "\<forall>c\<in>set xs. \<not> is_space c \<Longrightarrow> xs \<noteq> [] \<Longrightarrow>
     word_starts p (xs @ ys) = (if p then 1 else 0) + word_starts False ys"
proof (induction xs arbitrary: p)
  case Nil
  then show ?case by simp
next
  case (Cons x xs)
  show ?case
  proof (cases "xs = []")
    case True
    with Cons.prems show ?thesis by simp
  next
    case False
    with Cons show ?thesis by simp
  qed
qed

lemma word_starts_after_word:
  "ys = [] \<or> is_space (hd ys) \<Longrightarrow> word_starts False ys = word_starts True ys"
  by (cases ys) auto

lemma length_spec_words: "length (spec_words s) = spec_wordCount s"
  unfolding spec_wordCount_def
proof (induction s rule: spec_words.induct)
  case (1 s)
  let ?r = "dropWhile is_space s"
  let ?w = "takeWhile (\<lambda>c. \<not> is_space c) ?r"
  let ?t = "dropWhile (\<lambda>c. \<not> is_space c) ?r"
  have "\<forall>c\<in>set (takeWhile is_space s). is_space c"
    by (auto dest: set_takeWhileD)
  from word_starts_spaces [OF this, of True ?r]
  have lead: "word_starts True s = word_starts True ?r"
    by (simp only: takeWhile_dropWhile_id if_cancel)
  show ?case
  proof (cases "?r = []")
    case True
    then have "spec_words s = []"
      by (subst spec_words.simps) (simp only: Let_def if_True simp_thms)
    with lead True show ?thesis by simp
  next
    case False
    then have w: "?w \<noteq> []"
      by (metis hd_dropWhile list.collapse takeWhile.simps(2) list.distinct(1))
    have sw: "spec_words s = ?w # spec_words ?t"
      by (subst spec_words.simps) (simp only: Let_def False if_False)
    have IH: "length (spec_words ?t) = word_starts True ?t"
      using 1 False by simp
    have "ys = [] \<or> is_space (hd ys)" if "ys = ?t" for ys
      using that by (metis hd_dropWhile)
    then have after: "word_starts False ?t = word_starts True ?t"
      by (intro word_starts_after_word) simp
    have "word_starts True ?r = word_starts True (?w @ ?t)" by simp
    also have "\<dots> = 1 + word_starts False ?t"
    proof -
      have "\<forall>c\<in>set ?w. \<not> is_space c"
        by (auto dest: set_takeWhileD)
      from word_starts_word [OF this w, of True ?t] show ?thesis by simp
    qed
    finally show ?thesis
      using lead sw IH after by simp
  qed
qed

text \<open>
  Claim C7. Take a text without form feed and with at least one word, words being the
  maximal runs of characters that are not white space, and let \<open>n\<close> be their number. Cut
  into chunks of \<open>c \<ge> 1\<close> words with page limit \<open>m\<close>, the text gives \<open>min \<lceil>n / c\<rceil> m\<close>
  pages; page \<open>k\<close> (counted from 0) is made of the words \<open>k * c\<close> up to \<open>k * c + c\<close> in
  their order, joined by single spaces.
\<close>

theorem word_chunk_pages:
  assumes "\<not> includes_ff fullText"
    and "1 \<le> spec_wordCount fullText"
    and "1 \<le> c"
  shows "split_into_pages c m fullText =
      map (\<lambda>k. join '' '' (slice (spec_words fullText) (k * c) (k * c + c)))
        [0..<min (nat \<lceil>real (spec_wordCount fullText) / real c\<rceil>) m]
    \<and> length (split_into_pages c m fullText) =
      min (nat \<lceil>real (spec_wordCount fullText) / real c\<rceil>) m"
proof -
  let ?ws = "spec_words fullText"
  let ?f = "\<lambda>k. join '' '' (slice ?ws (k * c) (k * c + c))"
  let ?N = "(length ?ws + c - 1) div c"
  have code: "filter_Boolean (split_ws fullText) = ?ws"
    by (rule split_ws_words)
  have len: "length ?ws = spec_wordCount fullText"
    by (rule length_spec_words)
  with assms(2) have ne: "?ws \<noteq> []" by auto
  have N: "1 \<le> ?N"
    using chunk_index_less [OF assms(3), of 0 "length ?ws"] ne by simp
  have "chunk_loop c m ?ws (0 * c) (map ?f [0..<0]) = map ?f [0..<max (Suc 0) (min ?N m)]"
    using ne by (subst chunk_loop_pages [OF assms(3)]) simp
  then have loop: "chunk_loop c m ?ws 0 [] = map ?f [0..<max (Suc 0) (min ?N m)]"
    by simp
  have "split_into_pages c m fullText = map ?f [0..<min ?N m]"
  proof (cases "m = 0")
    case True
    then show ?thesis
      using assms(1) by (simp add: split_into_pages_def code loop slice_def Let_def)
  next
    case False
    with N have "max (Suc 0) (min ?N m) = min ?N m" by simp
    with False N show ?thesis
      using assms(1) by (simp add: split_into_pages_def code loop Let_def)
  qed
  then show ?thesis
    by (simp add: ceiling_div_nat [OF assms(3)] len)
qed

lemma spec_words_example:
  "spec_words '' a b  c d e '' = [''a'', ''b'', ''c'', ''d'', ''e'']"
  "spec_wordCount '' a b  c d e '' = 5"
  by code_simp+

theorem word_chunk_pages_witness:
  "\<not> includes_ff '' a b  c d e ''
   \<and> (1::nat) \<le> spec_wordCount '' a b  c d e ''
   \<and> (1::nat) \<le> 2
   \<and> split_into_pages 2 400 '' a b  c d e '' = [''a b'', ''c d'', ''e'']
   \<and> length (split_into_pages 2 400 '' a b  c d e '') = 3
   \<and> length (split_into_pages 2 2 '' a b  c d e '') = 2"
proof -
  have h1: "\<not> includes_ff '' a b  c d e ''"
    by (simp add: includes_ff_def form_feed_def)
  have h2: "1 \<le> spec_wordCount '' a b  c d e ''"
    by (simp add: spec_words_example)
  have h3: "(1::nat) \<le> 2" by simp
  show ?thesis
    using h1 h2 word_chunk_pages [OF h1 h2 h3, of 400] word_chunk_pages [OF h1 h2 h3, of 2]
    by (simp add: spec_words_example slice_def upt_rec)
qed

section \<open>Resolving the files of a request\<close>

text \<open>
  Claim C10. A request without files and with the id of an existing upload resolves to the
  stored files whose names end in \<open>.pdf\<close>, compared without regard to case, and to no
  other entry of the directory; the other entries raise no error and the file system is
  left as it is.
\<close>

theorem follow_up_lists_pdf_names:
  assumes "files req = []"
    and "uploadIdFromClient req = Some cid"
    and "sessions st cid = Some es"
  shows "resolve_files cap st req =
      Inr (st, map (stored_file cid) (filter is_pdf_name (map fst es)), Some cid)
    \<and> filename ` set (map (stored_file cid) (filter is_pdf_name (map fst es))) =
      {n \<in> fst ` set es. is_pdf_name n}"
proof -
  have "resolve_files cap st req =
      Inr (st, map (stored_file cid) (filter is_pdf_name (map fst es)), Some cid)"
    using assms by (simp add: resolve_files_def)
  moreover have "filename ` set (map (stored_file cid) (filter is_pdf_name (map fst es))) =
      {n \<in> fst ` set es. is_pdf_name n}"
    by (force simp: stored_file_def image_iff)
  ultimately show ?thesis by simp
qed

lemma is_pdf_examples:
  "is_pdf_name ''17_a.pdf''" "\<not> is_pdf_name ''notes.txt''" "is_pdf_name ''18_B.PDF''"
  by code_simp+

theorem follow_up_lists_pdf_names_witness:
  "files \<lparr>files = [], body_uploadId = Some ''u1'', body_question = Some ''q''\<rparr> = []
   \<and> uploadIdFromClient \<lparr>files = [], body_uploadId = Some ''u1'', body_question = Some ''q''\<rparr>
       = Some ''u1''
   \<and> sessions example_session_fs ''u1'' =
       Some [(''17_a.pdf'', ''text of a''), (''notes.txt'', ''notes''), (''18_B.PDF'', ''text of b'')]
   \<and> resolve_files example_cap example_session_fs
        \<lparr>files = [], body_uploadId = Some ''u1'', body_question = Some ''q''\<rparr> =
      Inr (example_session_fs,
           [\<lparr>originalname = ''a.pdf'', filename = ''17_a.pdf'', path = In_session ''u1'' ''17_a.pdf''\<rparr>,
            \<lparr>originalname = ''B.PDF'', filename = ''18_B.PDF'', path = In_session ''u1'' ''18_B.PDF''\<rparr>],
           Some ''u1'')"
proof -
  let ?req = "\<lparr>files = [], body_uploadId = Some ''u1'', body_question = Some ''q''\<rparr>"
  have h1: "files ?req = []" by simp
  have h2: "uploadIdFromClient ?req = Some ''u1''" by (simp add: uploadIdFromClient_def)
  have h3: "sessions example_session_fs ''u1'' =
      Some [(''17_a.pdf'', ''text of a''), (''notes.txt'', ''notes''), (''18_B.PDF'', ''text of b'')]"
    by (simp add: example_session_fs_def)
  show ?thesis
    using h2 h3 follow_up_lists_pdf_names [OF h1 h2 h3, of example_cap]
    by (simp add: is_pdf_examples stored_file_def strip_timestamp_def is_digit_def)
qed

lemma example_request_resolved:
  "resolve_files example_cap example_fs example_request =
     Inr (example_moved_fs,
          [\<lparr>originalname = ''a.pdf'', filename = ''17_a.pdf'', path = In_session ''u1'' ''17_a.pdf''\<rparr>],
          Some ''u1'')"
  by (simp add: resolve_files_def example_request_def example_cap_def example_fs_def
      example_file_def example_moved_fs_def uploadIdFromClient_def as_stored_by_multer_def
      move_file_def readFileSync_def unlink_def remove_entry_def put_entry_def Let_def)

text \<open>
  Claim C1, as the handler has it. A request with files to work on whose question is
  absent or the empty string is answered with status 400 and the message
  \<^verbatim>\<open>No question provided\<close>; the handler substitutes no question.
\<close>

theorem empty_question_is_rejected:
  assumes "resolve_files cap st req = Inr (st1, fs, uid)"
    and "fs \<noteq> []"
    and "body_question req = None \<or> body_question req = Some []"
  shows "handler cap st req = Some (Bad_Request no_question, st1)"
  using assms by (auto simp: handler_def)

theorem empty_question_is_rejected_witness:
  "resolve_files example_cap example_fs example_request =
     Inr (example_moved_fs,
          [\<lparr>originalname = ''a.pdf'', filename = ''17_a.pdf'', path = In_session ''u1'' ''17_a.pdf''\<rparr>],
          Some ''u1'')
   \<and> [\<lparr>originalname = ''a.pdf'', filename = ''17_a.pdf'', path = In_session ''u1'' ''17_a.pdf''\<rparr>] \<noteq> []
   \<and> (body_question example_request = None \<or> body_question example_request = Some [])
   \<and> handler example_cap example_fs example_request = Some (Bad_Request no_question, example_moved_fs)"
proof -
  have h3: "body_question example_request = None \<or> body_question example_request = Some []"
    by (simp add: example_request_def)
  show ?thesis
    using h3 example_request_resolved
      empty_question_is_rejected [OF example_request_resolved _ h3]
    by simp
qed

text \<open>
  Claim C1 as stated fails: a request with one file and the empty string as question gets
  an error response.
\<close>

theorem empty_question_counterexample:
  "map_option fst (handler example_cap example_fs
      \<lparr>files = [example_file], body_uploadId = None, body_question = Some []\<rparr>) =
     Some (Bad_Request ''No question provided'')"
  using example_request_resolved
  by (simp add: handler_def example_request_def no_question_def)

lemma put_entry_names: "fst ` set (put_entry n c d) = insert n (fst ` set d)"
  by (force simp: put_entry_def image_iff split: if_splits)

lemma move_file_from_upload_dir:
  "move_file st (In_upload_dir n) d n' =
     (case map_of (upload_dir st) n of
        None \<Rightarrow> None
      | Some c \<Rightarrow>
          (case sessions st d of
             None \<Rightarrow> None
           | Some es \<Rightarrow>
               Some (st\<lparr>upload_dir := remove_entry n (upload_dir st),
                        sessions := (sessions st)(d \<mapsto> put_entry n' c es)\<rparr>)))"
  by (simp add: move_file_def readFileSync_def unlink_def Let_def split: option.splits)

lemma as_stored_by_multer_simps:
  "path (as_stored_by_multer f) = In_upload_dir (filename f)"
  "filename (as_stored_by_multer f) = filename f"
  "originalname (as_stored_by_multer f) = originalname f"
  "(as_stored_by_multer f)\<lparr>path := In_session d (filename f)\<rparr> = moved_to d f"
  by (simp_all add: as_stored_by_multer_def moved_to_def)

lemma move_files_Inr:
  assumes "move_files st d (map as_stored_by_multer fs) = Inr (st', fs')"
    and "sessions st d = Some es0"
  shows "fs' = map (moved_to d) fs
    \<and> (\<exists>es. sessions st' d = Some es \<and> fst ` set es = fst ` set es0 \<union> filename ` set fs)
    \<and> (\<forall>d'. d' \<noteq> d \<longrightarrow> sessions st' d' = sessions st d')"
  using assms
proof (induction fs arbitrary: st es0 st' fs')
  case Nil
  then show ?case by simp
next
  case (Cons f fs)
  from Cons.prems(1) obtain st1 where
    mv: "move_file st (In_upload_dir (filename f)) d (filename f) = Some st1"
    by (auto simp: as_stored_by_multer_simps split: option.splits)
  with Cons.prems(2) obtain c where
    st1: "st1 = st\<lparr>upload_dir := remove_entry (filename f) (upload_dir st),
                    sessions := (sessions st)(d \<mapsto> put_entry (filename f) c es0)\<rparr>"
    by (auto simp: move_file_from_upload_dir split: option.splits)
  from Cons.prems(1) mv obtain fs1 where
    rest: "move_files st1 d (map as_stored_by_multer fs) = Inr (st', fs1)"
    and fs': "fs' = moved_to d f # fs1"
    by (auto simp: as_stored_by_multer_simps split: sum.splits)
  have s1: "sessions st1 d = Some (put_entry (filename f) c es0)"
    by (simp add: st1)
  from Cons.IH [OF rest s1] obtain es where
    "fs1 = map (moved_to d) fs"
    "sessions st' d = Some es"
    "fst ` set es = fst ` set (put_entry (filename f) c es0) \<union> filename ` set fs"
    "\<forall>d'. d' \<noteq> d \<longrightarrow> sessions st' d' = sessions st1 d'"
    by blast
  then show ?case
    using fs' by (auto simp: put_entry_names st1)
qed

lemma resolve_files_new_upload:
  assumes "files req \<noteq> []" and "uploadIdFromClient req = None"
  shows "resolve_files cap st req =
     (case move_files
             (if sessions st (randomUUID cap) = None
              then st\<lparr>sessions := (sessions st)(randomUUID cap \<mapsto> [])\<rparr> else st)
             (randomUUID cap) (map as_stored_by_multer (files req)) of
        Inl st2 \<Rightarrow> Inl st2
      | Inr (st2, fs) \<Rightarrow> Inr (st2, fs, Some (randomUUID cap)))"
  using assms by (simp add: resolve_files_def Let_def split: sum.splits)

lemma resolve_files_with_client_id:
  assumes "files req \<noteq> []" and "uploadIdFromClient req = Some cid"
  shows "resolve_files cap st req = Inr (st, map as_stored_by_multer (files req), Some cid)"
  using assms by (simp add: resolve_files_def Let_def)

lemma resolve_files_no_files:
  assumes "files req = []"
  shows "\<exists>fs. resolve_files cap st req = Inr (st, fs, uploadIdFromClient req)"
  using assms by (simp add: resolve_files_def Let_def split: option.splits)

lemma resolve_files_with_files:
  assumes "files req \<noteq> []"
  shows "(uploadIdFromClient req = None \<longrightarrow>
           (\<forall>st1 fs uid. resolve_files cap st req = Inr (st1, fs, uid) \<longrightarrow>
              uid = Some (randomUUID cap)
              \<and> fs = map (moved_to (randomUUID cap)) (files req)
              \<and> (\<exists>es. sessions st1 (randomUUID cap) = Some es
                     \<and> filename ` set (files req) \<subseteq> fst ` set es)
              \<and> (\<forall>d. d \<noteq> randomUUID cap \<longrightarrow> sessions st1 d = sessions st d)))
    \<and> (\<forall>cid. uploadIdFromClient req = Some cid \<longrightarrow>
           resolve_files cap st req = Inr (st, map as_stored_by_multer (files req), Some cid))"
proof (intro conjI impI allI)
  fix cid
  assume "uploadIdFromClient req = Some cid"
  with assms show "resolve_files cap st req = Inr (st, map as_stored_by_multer (files req), Some cid)"
    by (rule resolve_files_with_client_id)
next
  fix st1 fs uid
  assume none: "uploadIdFromClient req = None"
    and res: "resolve_files cap st req = Inr (st1, fs, uid)"
  let ?u = "randomUUID cap"
  let ?st0 = "if sessions st ?u = None then st\<lparr>sessions := (sessions st)(?u \<mapsto> [])\<rparr> else st"
  from res have mv: "move_files ?st0 ?u (map as_stored_by_multer (files req)) = Inr (st1, fs)"
    and uid: "uid = Some ?u"
    unfolding resolve_files_new_upload [OF assms none]
    by (auto split: sum.splits)
  obtain es0 where es0: "sessions ?st0 ?u = Some es0"
    by (cases "sessions st ?u") auto
  from move_files_Inr [OF mv es0] obtain es where r:
    "fs = map (moved_to ?u) (files req)"
    "sessions st1 ?u = Some es"
    "fst ` set es = fst ` set es0 \<union> filename ` set (files req)"
    "\<forall>d'. d' \<noteq> ?u \<longrightarrow> sessions st1 d' = sessions ?st0 d'"
    by blast
  show "uid = Some ?u" by (rule uid)
  show "fs = map (moved_to ?u) (files req)" by (rule r(1))
  show "\<exists>es. sessions st1 ?u = Some es \<and> filename ` set (files req) \<subseteq> fst ` set es"
    using r(2,3) by auto
  show "sessions st1 d = sessions st d" if "d \<noteq> ?u" for d
    using r(4) that by auto
qed



text \<open>
  The freshness of the generated id is the generator's: the handler makes the directory
  only if it is missing and moves the files into it in either case.
\<close>

lemma generated_id_in_use:
  "resolve_files example_cap example_taken_fs example_request =
     Inr (\<lparr>upload_dir = [],
           sessions = (\<lambda>uploadId. None)(''u1'' \<mapsto>
             [(''17_a.pdf'', ''text of a''), (''9_x.pdf'', ''text of x'')])\<rparr>,
          [\<lparr>originalname = ''a.pdf'', filename = ''17_a.pdf'', path = In_session ''u1'' ''17_a.pdf''\<rparr>],
          Some ''u1'')"
  by (simp add: resolve_files_def example_request_def example_cap_def example_taken_fs_def
      example_file_def uploadIdFromClient_def as_stored_by_multer_def
      move_file_def readFileSync_def unlink_def remove_entry_def put_entry_def Let_def)


lemma messages_differ: "no_pdfs \<noteq> no_question"
  by (simp add: no_pdfs_def no_question_def)

lemma handler_Bad_Request:
  "handler cap st req = Some (Bad_Request msg, st1) \<longleftrightarrow>
     (\<exists>fs uid. resolve_files cap st req = Inr (st1, fs, uid)
        \<and> (fs = [] \<and> msg = no_pdfs
            \<or> fs \<noteq> [] \<and> msg = no_question
               \<and> (body_question req = None \<or> body_question req = Some [])))"
  by (auto simp: handler_def split: sum.splits option.splits prod.splits)

text \<open>
  Claim C2, as the handler has it. A response with status 400 carries one of the two
  messages. With the message about missing PDFs the file system is as before the request:
  no directory has been made and no file moved. With the message about the missing
  question the file system is as before the request when the request has no files or has
  an upload id from the client.
\<close>

theorem bad_request_file_system:
  assumes "handler cap st req = Some (Bad_Request msg, st1)"
  shows "(msg = no_pdfs \<or> msg = no_question)
     \<and> (msg = no_pdfs \<longrightarrow> st1 = st)
     \<and> (msg = no_question \<and> (files req = [] \<or> uploadIdFromClient req \<noteq> None) \<longrightarrow> st1 = st)"
proof -
  from assms obtain fs uid where res: "resolve_files cap st req = Inr (st1, fs, uid)"
    and msg: "fs = [] \<and> msg = no_pdfs \<or> fs \<noteq> [] \<and> msg = no_question"
    unfolding handler_Bad_Request by blast
  have untouched: "st1 = st" if "files req = [] \<or> uploadIdFromClient req \<noteq> None"
  proof (cases "files req = []")
    case True
    then show ?thesis using res resolve_files_no_files [OF True, of cap st] by auto
  next
    case False
    with that obtain cid where "uploadIdFromClient req = Some cid" by auto
    with False res show ?thesis
      using resolve_files_with_client_id [of req cid cap st] by simp
  qed
  have moved: "fs \<noteq> []" if "files req \<noteq> []" "uploadIdFromClient req = None"
    using resolve_files_with_files [OF that(1), of cap st] that res by auto
  show ?thesis
    using msg untouched moved messages_differ by blast
qed

theorem bad_request_file_system_witness:
  "handler example_cap example_fs
        \<lparr>files = [], body_uploadId = None, body_question = Some []\<rparr> =
       Some (Bad_Request no_pdfs, example_fs)
   \<and> files \<lparr>files = [], body_uploadId = Some ''u1'', body_question = None\<rparr> = []
   \<and> handler example_cap example_session_fs
        \<lparr>files = [], body_uploadId = Some ''u1'', body_question = None\<rparr> =
       Some (Bad_Request no_question, example_session_fs)"
proof -
  have h1: "handler example_cap example_fs
        \<lparr>files = [], body_uploadId = None, body_question = Some []\<rparr> =
       Some (Bad_Request no_pdfs, example_fs)"
    by (simp add: handler_def resolve_files_def uploadIdFromClient_def Let_def)
  have h2: "handler example_cap example_session_fs
        \<lparr>files = [], body_uploadId = Some ''u1'', body_question = None\<rparr> =
       Some (Bad_Request no_question, example_session_fs)"
    by (simp add: handler_def resolve_files_def uploadIdFromClient_def Let_def
        example_session_fs_def is_pdf_examples)
  show ?thesis
    using h1 h2 bad_request_file_system [OF h1] bad_request_file_system [OF h2]
    by simp
qed

text \<open>
  Claim C2 as stated fails: a request with one file, no upload id and no question is
  answered with status 400 after the directory \<open>u1\<close> has been made and the file moved
  into it.
\<close>

theorem bad_request_file_system_counterexample:
  "handler example_cap example_fs
     \<lparr>files = [\<lparr>originalname = ''a.pdf'', filename = ''17_a.pdf''\<rparr>],
      body_uploadId = None, body_question = None\<rparr> =
     Some (Bad_Request ''No question provided'',
           \<lparr>upload_dir = [],
            sessions = (\<lambda>uploadId. None)(''u1'' \<mapsto> [(''17_a.pdf'', ''text of a'')])\<rparr>)
   \<and> example_fs =
       \<lparr>upload_dir = [(''17_a.pdf'', ''text of a'')], sessions = (\<lambda>uploadId. None)\<rparr>"
  by (simp add: handler_def resolve_files_def uploadIdFromClient_def as_stored_by_multer_def
      Let_def example_cap_def example_fs_def move_file_def readFileSync_def unlink_def
      remove_entry_def put_entry_def no_question_def)

section \<open>Embedding failures\<close>

lemma embed_loop_returns:
  assumes "0 < bs"
  shows "\<exists>r. embed_loop provider bs pages i acc = Some r"
proof (induction "length pages - i" arbitrary: i acc rule: less_induct)
  case less
  show ?case
  proof (cases "i < length pages")
    case False
    then show ?thesis by (subst embed_loop.simps) simp
  next
    case True
    then have "length pages - (i + bs) < length pages - i"
      using assms by simp
    from less [OF this] show ?thesis
      by (subst embed_loop.simps) (auto split: option.splits)
  qed
qed

lemma embed_loop_error:
  assumes "0 < bs" and "embed_loop provider bs pages i acc = Some (Inl e)"
  shows "e = Embedding_pages_failed"
  using assms(2)
proof (induction "length pages - i" arbitrary: i acc rule: less_induct)
  case less
  show ?case
  proof (cases "i < length pages")
    case False
    with less.prems show ?thesis by (subst (asm) embed_loop.simps) simp
  next
    case True
    then have dec: "length pages - (i + bs) < length pages - i"
      using assms(1) by simp
    from less.prems True show ?thesis
      by (subst (asm) embed_loop.simps) (auto split: option.splits if_splits dest: less.hyps [OF dec])
  qed
qed

lemma embed_loop_success:
  assumes "0 < bs" and "embed_loop provider bs pages i acc = Some (Inr r)"
    and "i + n * bs < length pages"
  shows "\<exists>e. provider (i + n * bs) (slice pages (i + n * bs) (i + n * bs + bs)) = Some e
    \<and> length e = length (slice pages (i + n * bs) (i + n * bs + bs))"
  using assms(2,3)
proof (induction n arbitrary: i acc)
  case 0
  then show ?case
    by (subst (asm) embed_loop.simps) (auto split: option.splits if_splits)
next
  case (Suc n)
  from Suc.prems(2) have i: "i < length pages" by simp
  from Suc.prems(1) i obtain e where
    "embed_loop provider bs pages (i + bs) (store_batch acc i e) = Some (Inr r)"
    by (subst (asm) embed_loop.simps) (auto split: option.splits if_splits)
  moreover have "(i + bs) + n * bs < length pages"
    using Suc.prems(2) by (simp add: algebra_simps)
  ultimately have "\<exists>e. provider (i + bs + n * bs) (slice pages (i + bs + n * bs) (i + bs + n * bs + bs)) = Some e
    \<and> length e = length (slice pages (i + bs + n * bs) (i + bs + n * bs + bs))"
    by (rule Suc.IH)
  then show ?case by (simp add: algebra_simps)
qed

lemma embed_loop_failure:
  assumes "0 < bs" and "i + n * bs < length pages"
    and "\<not> (\<exists>e. provider (i + n * bs) (slice pages (i + n * bs) (i + n * bs + bs)) = Some e
      \<and> length e = length (slice pages (i + n * bs) (i + n * bs + bs)))"
  shows "embed_loop provider bs pages i acc = Some (Inl Embedding_pages_failed)"
proof -
  obtain r where r: "embed_loop provider bs pages i acc = Some r"
    using embed_loop_returns [OF assms(1)] by blast
  show ?thesis
  proof (cases r)
    case (Inl e)
    with r embed_loop_error [OF assms(1)] show ?thesis by auto
  next
    case (Inr v)
    with r embed_loop_success [OF assms(1) _ assms(2)] assms(3) show ?thesis by blast
  qed
qed

lemma handler_options_simps:
  "topK handler_options = 5" "chunkSizeWords handler_options = 300"
  "maxPages handler_options = 400" "batchSize handler_options = 8"
  by (simp_all add: handler_options_def)

lemma vectorSearch_returns:
  assumes "0 < batchSize opts"
  shows "\<exists>r. vectorSearchForPdfBuffer cap fi buf q opts = Some r"
proof (cases "q = [] \<or> pdf_text cap buf = None")
  case True
  then show ?thesis by (auto simp: vectorSearchForPdfBuffer_def)
next
  case False
  then obtain fullText where t: "q \<noteq> []" "pdf_text cap buf = Some fullText" by auto
  let ?pages = "split_into_pages (chunkSizeWords opts) (maxPages opts) fullText"
  obtain r where "embed_loop (embed_batch cap fi) (batchSize opts) ?pages 0
      (replicate (length ?pages) NotArray) = Some r"
    using embed_loop_returns [OF assms] by blast
  with t show ?thesis
    by (cases r) (auto simp: vectorSearchForPdfBuffer_def Let_def split: option.splits)
qed

lemma vectorSearch_batch_failure:
  assumes "q \<noteq> []" and "pdf_text cap buf = Some fullText"
    and "n * 8 < length (split_into_pages 300 400 fullText)"
    and "\<not> (\<exists>e. embed_batch cap fi (n * 8)
              (slice (split_into_pages 300 400 fullText) (n * 8) (n * 8 + 8)) = Some e
          \<and> length e = length (slice (split_into_pages 300 400 fullText) (n * 8) (n * 8 + 8)))"
  shows "vectorSearchForPdfBuffer cap fi buf q handler_options = Some (Inl Embedding_pages_failed)"
proof -
  have "embed_loop (embed_batch cap fi) 8 (split_into_pages 300 400 fullText) 0 acc =
      Some (Inl Embedding_pages_failed)" for acc
    using embed_loop_failure [of 8 0 n "split_into_pages 300 400 fullText" "embed_batch cap fi" acc]
      assms(3,4) by simp
  then show ?thesis
    using assms(1,2) by (simp add: vectorSearchForPdfBuffer_def handler_options_simps Let_def)
qed

lemma process_file_returns: "\<exists>r. process_file cap st q fi f = Some r"
  using vectorSearch_returns [of handler_options cap fi _ q]
  by (auto simp: process_file_def handler_options_simps split: option.splits)

lemma process_files_returns: "\<exists>r. process_files cap st q fi fs = Some r"
proof (induction fs arbitrary: fi)
  case Nil
  show ?case by simp
next
  case (Cons f rest)
  obtain r where r: "process_file cap st q fi f = Some r"
    using process_file_returns by blast
  obtain r' where r': "process_files cap st q (fi + 1) rest = Some r'"
    using Cons by blast
  show ?case
    using r r' by (cases r; cases r') simp_all
qed

lemma process_files_all_done:
  assumes "process_files cap st q fi fs = Some (Inr docs)" and "j < length fs"
  shows "\<exists>tp. process_file cap st q (fi + j) (fs ! j) = Some (Inr tp)"
  using assms
proof (induction fs arbitrary: fi j docs)
  case Nil
  then show ?case by simp
next
  case (Cons f rest)
  from Cons.prems(1) obtain tp docs' where
    hd: "process_file cap st q fi f = Some (Inr tp)"
    and tl: "process_files cap st q (fi + 1) rest = Some (Inr docs')"
    by (auto split: option.splits sum.splits)
  show ?case
  proof (cases j)
    case 0
    with hd show ?thesis by simp
  next
    case (Suc j')
    with Cons.prems(2) have "j' < length rest" by simp
    from Cons.IH [OF tl this] Suc show ?thesis by simp
  qed
qed

lemma process_files_first_failure:
  assumes "\<forall>i<j. \<exists>tp. process_file cap st q (fi + i) (fs ! i) = Some (Inr tp)"
    and "j < length fs"
    and "process_file cap st q (fi + j) (fs ! j) = Some (Inl e)"
  shows "process_files cap st q fi fs = Some (Inl (File_failed (originalname (fs ! j)) e))"
  using assms
proof (induction fs arbitrary: fi j)
  case Nil
  then show ?case by simp
next
  case (Cons f rest)
  show ?case
  proof (cases j)
    case 0
    with Cons.prems(3) show ?thesis by simp
  next
    case (Suc j')
    from Cons.prems(1) Suc obtain tp where hd: "process_file cap st q fi f = Some (Inr tp)"
      by force
    have "\<forall>i<j'. \<exists>tp. process_file cap st q (fi + 1 + i) (rest ! i) = Some (Inr tp)"
      using Cons.prems(1) Suc by force
    moreover have "j' < length rest" using Cons.prems(2) Suc by simp
    moreover have "process_file cap st q (fi + 1 + j') (rest ! j') = Some (Inl e)"
      using Cons.prems(3) Suc by simp
    ultimately have "process_files cap st q (fi + 1) rest =
        Some (Inl (File_failed (originalname (rest ! j')) e))"
      by (rule Cons.IH)
    with hd Suc show ?thesis by simp
  qed
qed

lemma handler_returns: "\<exists>r. handler cap st req = Some r"
proof (cases "resolve_files cap st req")
  case (Inl st1)
  then show ?thesis by (simp add: handler_def)
next
  case (Inr res)
  then obtain st1 fs uid where res: "resolve_files cap st req = Inr (st1, fs, uid)"
    by (cases res) auto
  show ?thesis
  proof (cases "fs = [] \<or> body_question req = None \<or> body_question req = Some []")
    case True
    with res show ?thesis by (auto simp: handler_def)
  next
    case False
    then obtain q where q: "fs \<noteq> []" "body_question req = Some q" "q \<noteq> []" by auto
    obtain r where "process_files cap st1 q 0 fs = Some r"
      using process_files_returns by blast
    with res q show ?thesis
      by (cases r) (auto simp: handler_def split: option.splits)
  qed
qed

text \<open>
  Claim C9. Take a request with a question and effective files, and a document \<open>j\<close> of it
  that can be read and whose text can be extracted. If the embedding provider throws on
  some batch of that document, or answers it with an array of another size than the batch,
  then the request ends with status 500 and no answer is given; if moreover the documents
  before \<open>j\<close> went through and the handler could parse document \<open>j\<close>, the error is the
  embedding error of document \<open>j\<close>.
\<close>

theorem embedding_failure_fails_request:
  assumes "resolve_files cap st req = Inr (st1, fs, uid)"
    and "body_question req = Some q" and "q \<noteq> []"
    and "j < length fs"
    and "readFileSync st1 (path (fs ! j)) = Some buf"
    and "pdf_text cap buf = Some fullText"
    and "n * 8 < length (split_into_pages 300 400 fullText)"
    and "\<not> (\<exists>e. embed_batch cap j (n * 8)
              (slice (split_into_pages 300 400 fullText) (n * 8) (n * 8 + 8)) = Some e
          \<and> length e = length (slice (split_into_pages 300 400 fullText) (n * 8) (n * 8 + 8)))"
  shows "(\<exists>f. handler cap st req = Some (Server_Error f, st1))
    \<and> (PDFParse cap buf \<noteq> None
        \<and> (\<forall>i<j. \<exists>tp. process_file cap st1 q i (fs ! i) = Some (Inr tp)) \<longrightarrow>
         handler cap st req =
           Some (Server_Error (File_failed (originalname (fs ! j)) Embedding_pages_failed), st1))"
proof -
  have search: "vectorSearchForPdfBuffer cap j buf q handler_options =
      Some (Inl Embedding_pages_failed)"
    using assms(3,6,7,8) by (rule vectorSearch_batch_failure)
  have fs: "fs \<noteq> []" using assms(4) by auto
  have run: "handler cap st req =
      (case process_files cap st1 q 0 fs of
         None \<Rightarrow> None
       | Some (Inl f) \<Rightarrow> Some (Server_Error f, st1)
       | Some (Inr docs) \<Rightarrow>
           (case askWithLlama cap docs q of
              None \<Rightarrow> Some (Server_Error LLM_failed, st1)
            | Some answer \<Rightarrow> Some (Answer answer (sources_of docs) (or_null uid), st1)))"
    using assms(1,2,3) fs by (simp add: handler_def)
  have failed: "\<exists>e. process_file cap st1 q j (fs ! j) = Some (Inl e)"
    using assms(5) search by (auto simp: process_file_def split: option.splits)
  obtain r where r: "process_files cap st1 q 0 fs = Some r"
    using process_files_returns by blast
  have "\<exists>f. r = Inl f"
  proof (cases r)
    case (Inl f)
    then show ?thesis by simp
  next
    case (Inr docs)
    with r process_files_all_done [of cap st1 q 0 fs docs j] assms(4) failed
    show ?thesis by auto
  qed
  then have first: "\<exists>f. handler cap st req = Some (Server_Error f, st1)"
    using r run by auto
  have second: "handler cap st req =
      Some (Server_Error (File_failed (originalname (fs ! j)) Embedding_pages_failed), st1)"
    if "PDFParse cap buf \<noteq> None"
      and "\<forall>i<j. \<exists>tp. process_file cap st1 q i (fs ! i) = Some (Inr tp)"
  proof -
    have "process_file cap st1 q (0 + j) (fs ! j) = Some (Inl Embedding_pages_failed)"
      using assms(5) search that(1) by (auto simp: process_file_def)
    moreover have "\<forall>i<j. \<exists>tp. process_file cap st1 q (0 + i) (fs ! i) = Some (Inr tp)"
      using that(2) by simp
    ultimately have "process_files cap st1 q 0 fs =
        Some (Inl (File_failed (originalname (fs ! j)) Embedding_pages_failed))"
      using assms(4) by (intro process_files_first_failure)
    then show ?thesis using run by simp
  qed
  from first second show ?thesis by blast
qed

lemma nine_pages_split:
  "split_into_pages 300 400 nine_pages =
     [''a'', ''b'', ''c'', ''d'', ''e'', ''f'', ''g'', ''h'', ''i'']"
  by code_simp

lemma nine_pages_resolved:
  "resolve_files failing_cap nine_pages_fs nine_pages_request =
     Inr (nine_pages_moved_fs,
          [\<lparr>originalname = ''a.pdf'', filename = ''17_a.pdf'', path = In_session ''u1'' ''17_a.pdf''\<rparr>],
          Some ''u1'')"
  by (simp add: resolve_files_def nine_pages_request_def failing_cap_def nine_pages_fs_def
      nine_pages_moved_fs_def uploadIdFromClient_def as_stored_by_multer_def
      move_file_def readFileSync_def unlink_def remove_entry_def put_entry_def Let_def)

theorem embedding_failure_fails_request_witness:
  "resolve_files failing_cap nine_pages_fs nine_pages_request =
     Inr (nine_pages_moved_fs,
          [\<lparr>originalname = ''a.pdf'', filename = ''17_a.pdf'', path = In_session ''u1'' ''17_a.pdf''\<rparr>],
          Some ''u1'')
   \<and> body_question nine_pages_request = Some ''what is in it''
   \<and> readFileSync nine_pages_moved_fs (In_session ''u1'' ''17_a.pdf'') = Some nine_pages
   \<and> pdf_text failing_cap nine_pages = Some nine_pages
   \<and> (1::nat) * 8 < length (split_into_pages 300 400 nine_pages)
   \<and> embed_batch failing_cap 0 8 (slice (split_into_pages 300 400 nine_pages) 8 16) = None
   \<and> handler failing_cap nine_pages_fs nine_pages_request =
       Some (Server_Error (File_failed ''a.pdf'' Embedding_pages_failed), nine_pages_moved_fs)"
proof -
  let ?f = "\<lparr>originalname = ''a.pdf'', filename = ''17_a.pdf'', path = In_session ''u1'' ''17_a.pdf''\<rparr>"
  have h2: "body_question nine_pages_request = Some ''what is in it''"
    by (simp add: nine_pages_request_def)
  have h3: "''what is in it'' \<noteq> []" by simp
  have h4: "0 < length [?f]" by simp
  have h5: "readFileSync nine_pages_moved_fs (path ([?f] ! 0)) = Some nine_pages"
    by (simp add: readFileSync_def nine_pages_moved_fs_def)
  have h6: "pdf_text failing_cap nine_pages = Some nine_pages"
    by (simp add: failing_cap_def)
  have h7: "1 * 8 < length (split_into_pages 300 400 nine_pages)"
    by (simp add: nine_pages_split)
  have none: "embed_batch failing_cap 0 (1 * 8)
      (slice (split_into_pages 300 400 nine_pages) (1 * 8) (1 * 8 + 8)) = None"
    by (simp add: failing_cap_def)
  then have h8: "\<not> (\<exists>e. embed_batch failing_cap 0 (1 * 8)
        (slice (split_into_pages 300 400 nine_pages) (1 * 8) (1 * 8 + 8)) = Some e
      \<and> length e = length (slice (split_into_pages 300 400 nine_pages) (1 * 8) (1 * 8 + 8)))"
    by simp
  have parse: "PDFParse failing_cap nine_pages \<noteq> None"
    by (simp add: failing_cap_def)
  show ?thesis
    using embedding_failure_fails_request [OF nine_pages_resolved h2 h3 h4 h5 h6 h7 h8]
      nine_pages_resolved h2 h5 h6 h7 none parse
    by simp
qed

section \<open>A follow-up request on an upload\<close>

lemma decimal_digits: "\<forall>c\<in>set (decimal n). is_digit c"
proof (induction n rule: decimal.induct)
  case (1 n)
  have d: "is_digit (char_of (48 + k))" if "k < 10" for k :: nat
    using that by (simp add: is_digit_def)
  show ?case
  proof (cases "n < 10")
    case True
    then show ?thesis by (subst decimal.simps) (simp add: d)
  next
    case False
    with 1 show ?thesis by (subst decimal.simps) (simp add: d)
  qed
qed

lemma decimal_not_empty: "decimal n \<noteq> []"
  by (subst decimal.simps) simp

lemma strip_timestamp_multer_filename: "strip_timestamp (multer_filename now name) = sanitize name"
proof -
  have nd: "\<not> is_digit CHR ''_''" by (simp add: is_digit_def)
  have "takeWhile is_digit (decimal now @ CHR ''_'' # sanitize name) = decimal now"
    using decimal_digits [of now] nd by (simp add: takeWhile_append2)
  moreover have "dropWhile is_digit (decimal now @ CHR ''_'' # sanitize name) = CHR ''_'' # sanitize name"
    using decimal_digits [of now] nd by (simp add: dropWhile_append2)
  ultimately show ?thesis
    by (simp add: strip_timestamp_def multer_filename_def decimal_not_empty)
qed

lemma is_pdf_name_multer_filename:
  "is_pdf_name (multer_filename now name) \<longleftrightarrow> is_pdf_name (sanitize name)"
proof -
  have low: "toLowerCase_char CHR ''_'' = CHR ''_''"
    by (simp add: toLowerCase_char_def)
  have "suffix ''.pdf'' (p @ CHR ''_'' # t) \<longleftrightarrow> suffix ''.pdf'' t" for p t :: string
  proof
    assume "suffix ''.pdf'' t"
    then show "suffix ''.pdf'' (p @ CHR ''_'' # t)"
      by (metis suffix_Cons suffix_appendI)
  next
    assume a: "suffix ''.pdf'' (p @ CHR ''_'' # t)"
    have "\<not> (\<exists>xs'. ''.pdf'' = xs' @ CHR ''_'' # t)"
    proof
      assume "\<exists>xs'. ''.pdf'' = xs' @ CHR ''_'' # t"
      then obtain xs' where "''.pdf'' = xs' @ CHR ''_'' # t" ..
      then have "CHR ''_'' \<in> set ''.pdf''" by (metis in_set_conv_decomp)
      then show False by simp
    qed
    with a have "suffix ''.pdf'' (CHR ''_'' # t)"
      unfolding suffix_append by blast
    then show "suffix ''.pdf'' t"
      by (auto simp: suffix_Cons)
  qed
  then show ?thesis
    by (simp add: is_pdf_name_def multer_filename_def low)
qed

lemma multer_store_files:
  "multer_store st0 parts = (st, fs) \<Longrightarrow>
     fs = map (\<lambda>(now, name, content). \<lparr>originalname = name, filename = multer_filename now name\<rparr>) parts
     \<and> sessions st = sessions st0"
proof (induction parts arbitrary: st0 st fs)
  case Nil
  then show ?case by simp
next
  case (Cons p parts)
  obtain now name content where p: "p = (now, name, content)" by (cases p)
  let ?st1 = "st0\<lparr>upload_dir := put_entry (multer_filename now name) content (upload_dir st0)\<rparr>"
  obtain st2 fs2 where rest: "multer_store ?st1 parts = (st2, fs2)" by fastforce
  with Cons.prems p have "st = st2"
    and "fs = \<lparr>originalname = name, filename = multer_filename now name\<rparr> # fs2"
    by (simp_all add: Let_def)
  with Cons.IH [OF rest] p show ?case by simp
qed

lemma resolve_files_follow_up:
  assumes "files req = []" and "uploadIdFromClient req = Some cid" and "sessions st cid = Some es"
  shows "resolve_files cap st req =
      Inr (st, map (stored_file cid) (filter is_pdf_name (map fst es)), Some cid)"
  using assms by (simp add: resolve_files_def)

lemma process_files_names:
  "process_files cap st q fi fs = Some (Inr docs) \<Longrightarrow> map fst docs = map originalname fs"
proof (induction fs arbitrary: fi docs)
  case Nil
  then show ?case by simp
next
  case (Cons f rest)
  then show ?case
    by (auto split: option.splits sum.splits)
qed

lemma handler_Answer_files:
  assumes "handler cap st req = Some (Answer a srcs rid, st1)"
  shows "\<exists>fs uid. resolve_files cap st req = Inr (st1, fs, uid) \<and> fs \<noteq> []
    \<and> rid = or_null uid \<and> map fst srcs = map originalname fs"
proof -
  from assms obtain fs uid q docs where
    "resolve_files cap st req = Inr (st1, fs, uid)" "fs \<noteq> []" "rid = or_null uid"
    "process_files cap st1 q 0 fs = Some (Inr docs)"
    "srcs = sources_of docs"
    by (auto simp: handler_def split: sum.splits option.splits prod.splits if_splits)
  moreover have "map fst (sources_of docs) = map fst docs"
    by (simp add: sources_of_def case_prod_beta)
  ultimately show ?thesis
    using process_files_names by fastforce
qed

lemma or_null_Some: "or_null uid = Some sid \<longleftrightarrow> uid = Some sid \<and> sid \<noteq> []"
  by (auto simp: or_null_def split: option.splits if_splits)

lemma stored_file_names:
  "originalname ` set (map (stored_file sid) (filter is_pdf_name ns)) =
     strip_timestamp ` {n \<in> set ns. is_pdf_name n}"
proof -
  have "originalname \<circ> stored_file sid = strip_timestamp"
    by (rule ext) (simp add: stored_file_def)
  then show ?thesis
    by (simp add: image_comp)
qed

lemma stripped_pdf_names:
  "strip_timestamp ` {n \<in> (\<lambda>(now, name, content). multer_filename now name) ` P. is_pdf_name n} =
     {n \<in> sanitize ` (\<lambda>(now, name, content). name) ` P. is_pdf_name n}"
  (is "?L = ?R")
proof (rule set_eqI)
  fix x
  have "x \<in> ?L \<longleftrightarrow> (\<exists>now name content. (now, name, content) \<in> P
      \<and> is_pdf_name (multer_filename now name) \<and> x = strip_timestamp (multer_filename now name))"
    by (simp add: image_iff Bex_def) blast
  also have "\<dots> \<longleftrightarrow> (\<exists>now name content. (now, name, content) \<in> P
      \<and> is_pdf_name (sanitize name) \<and> x = sanitize name)"
    by (simp add: strip_timestamp_multer_filename is_pdf_name_multer_filename)
  also have "\<dots> \<longleftrightarrow> x \<in> ?R"
    by (simp add: image_iff Bex_def) blast
  finally show "x \<in> ?L \<longleftrightarrow> x \<in> ?R" .
qed

lemma multer_file_names:
  "originalname ` set (map (\<lambda>(now, name, content).
        \<lparr>originalname = name, filename = multer_filename now name\<rparr>) parts) =
     (\<lambda>(now, name, content). name) ` set parts"
  "filename ` set (map (\<lambda>(now, name, content).
        \<lparr>originalname = name, filename = multer_filename now name\<rparr>) parts) =
     (\<lambda>(now, name, content). multer_filename now name) ` set parts"
  by (simp_all add: image_comp comp_def case_prod_beta)

lemma moved_to_names: "map originalname (map (moved_to d) fs) = map originalname fs"
  by (simp add: moved_to_def)

text \<open>
  Claim C4, as the handler has it. Take a first request whose files multer has stored,
  which carries no upload id and is answered with the upload id \<open>sid\<close>, the directory of
  that id being new. The answer names the files as the client named them. A follow-up
  request with \<open>sid\<close> and no files resolves, on the file system the first request left, to
  the sanitized names (every character other than a letter, a digit, dot, hyphen and
  underscore replaced by an underscore) of those files whose name ends in \<open>.pdf\<close>,
  compared without regard to case. When every name is its own sanitized form and ends in
  \<open>.pdf\<close>, both requests show the same set of names.
\<close>

theorem follow_up_display_names:
  assumes "multer_store st0 parts = (st, files req1)"
    and "uploadIdFromClient req1 = None"
    and "sessions st (randomUUID cap) = None"
    and "handler cap st req1 = Some (Answer a srcs (Some sid), st1)"
    and "files req2 = []" and "body_uploadId req2 = Some sid"
  shows "fst ` set srcs = uploaded_names parts
    \<and> (\<exists>fs2. resolve_files cap2 st1 req2 = Inr (st1, fs2, Some sid)
          \<and> originalname ` set fs2 = {n \<in> sanitize ` uploaded_names parts. is_pdf_name n}
          \<and> ((\<forall>n\<in>uploaded_names parts. sanitize n = n \<and> is_pdf_name n) \<longrightarrow>
               originalname ` set fs2 = fst ` set srcs))"
proof -
  let ?u = "randomUUID cap"
  let ?mf = "\<lambda>(now, name, content). \<lparr>originalname = name, filename = multer_filename now name\<rparr>"
  from handler_Answer_files [OF assms(4)] obtain fs1 uid where
    res: "resolve_files cap st req1 = Inr (st1, fs1, uid)" and ne: "fs1 \<noteq> []"
    and rid: "Some sid = or_null uid"
    and srcs: "map fst srcs = map originalname fs1"
    by blast
  from rid have uid: "uid = Some sid" "sid \<noteq> []"
    using or_null_Some [of uid sid] by simp_all
  have files: "files req1 = map ?mf parts"
    using multer_store_files [OF assms(1)] by simp
  have nonempty: "files req1 \<noteq> []"
  proof
    assume "files req1 = []"
    with res assms(2) have "fs1 = []"
      by (simp add: resolve_files_def Let_def)
    with ne show False by simp
  qed
  let ?st0 = "st\<lparr>sessions := (sessions st)(?u \<mapsto> [])\<rparr>"
  from res have mv: "move_files ?st0 ?u (map as_stored_by_multer (files req1)) = Inr (st1, fs1)"
    and "uid = Some ?u"
    unfolding resolve_files_new_upload [OF nonempty assms(2)] using assms(3)
    by (auto split: sum.splits)
  with uid have sid: "sid = ?u" by simp
  have "sessions ?st0 ?u = Some []" by simp
  from move_files_Inr [OF mv this] obtain es where
    fs1: "fs1 = map (moved_to ?u) (files req1)"
    and es: "sessions st1 ?u = Some es" "fst ` set es = filename ` set (files req1)"
    by auto
  have "map fst srcs = map originalname (files req1)"
    unfolding srcs fs1 by (rule moved_to_names)
  then have "set (map fst srcs) = set (map originalname (files req1))"
    by (rule arg_cong)
  then have "fst ` set srcs = originalname ` set (files req1)"
    by (simp only: set_map)
  then have first: "fst ` set srcs = uploaded_names parts"
    unfolding files uploaded_names_def multer_file_names by simp
  have id2: "uploadIdFromClient req2 = Some sid"
    using assms(6) uid(2) by (simp add: uploadIdFromClient_def)
  let ?fs2 = "map (stored_file sid) (filter is_pdf_name (map fst es))"
  have follow: "resolve_files cap2 st1 req2 = Inr (st1, ?fs2, Some sid)"
    using assms(5) id2 es(1) sid by (intro resolve_files_follow_up) simp_all
  have "originalname ` set ?fs2 = strip_timestamp ` {n \<in> fst ` set es. is_pdf_name n}"
    using stored_file_names [of sid "map fst es"] by simp
  also have "\<dots> = {n \<in> sanitize ` uploaded_names parts. is_pdf_name n}"
    unfolding es(2) files uploaded_names_def multer_file_names by (rule stripped_pdf_names)
  finally have names: "originalname ` set ?fs2 =
      {n \<in> sanitize ` uploaded_names parts. is_pdf_name n}" .
  have same: "originalname ` set ?fs2 = fst ` set srcs"
    if clean: "\<forall>n\<in>uploaded_names parts. sanitize n = n \<and> is_pdf_name n"
  proof -
    from clean have "sanitize ` uploaded_names parts = uploaded_names parts"
      by (simp add: image_iff set_eq_iff)
    with clean have "{n \<in> sanitize ` uploaded_names parts. is_pdf_name n} = uploaded_names parts"
      by auto
    with names first show ?thesis by simp
  qed
  from follow names same
  have "\<exists>fs2. resolve_files cap2 st1 req2 = Inr (st1, fs2, Some sid)
      \<and> originalname ` set fs2 = {n \<in> sanitize ` uploaded_names parts. is_pdf_name n}
      \<and> ((\<forall>n\<in>uploaded_names parts. sanitize n = n \<and> is_pdf_name n) \<longrightarrow>
           originalname ` set fs2 = fst ` set srcs)"
    by blast
  with first show ?thesis by simp
qed

lemma example_embed_loop:
  "embed_loop (embed_batch example_cap fi) 8 [p] 0 [NotArray] = Some (Inr [Vec [Fin 1, Fin 0]])"
  apply (subst embed_loop.simps)
  apply (simp add: example_cap_def slice_def store_batch_def)
  apply (subst embed_loop.simps)
  apply simp
  done

lemma example_rank:
  "rank [p] [Vec [Fin 1, Fin 0]] (Vec [Fin 1, Fin 0]) 5 = [\<lparr>pageNumber = 1, page_text = p, score = Fin 1\<rparr>]"
  by (simp add: rank_def score_pages_def enumerate_eq_zip embedding_at_def page_score_def
      cosine_unit_same array_sort_def slice_def)

lemma example_process_file:
  assumes "readFileSync st (path f) = Some buf"
    and "split_into_pages 300 400 buf = [p]"
    and "q \<noteq> []"
  shows "process_file example_cap st q fi f =
     Some (Inr [\<lparr>pageNumber = 1, page_text = p, score = Fin 1\<rparr>])"
proof -
  have "PDFParse example_cap buf = Some buf" "pdf_text example_cap buf = Some buf"
    "embed_single example_cap fi q = Some (Vec [Fin 1, Fin 0])"
    by (simp_all add: example_cap_def)
  then show ?thesis
    using assms
    by (simp add: process_file_def vectorSearchForPdfBuffer_def handler_options_simps
        example_embed_loop example_rank)
qed

lemma example_texts:
  "split_into_pages 300 400 ''text of a'' = [''text of a'']"
  "split_into_pages 300 400 ''text of notes'' = [''text of notes'']"
  by code_simp+

lemma two_files_resolved:
  "resolve_files example_cap two_files_fs two_files_request =
     Inr (two_files_session_fs,
          [\<lparr>originalname = ''a b.pdf'', filename = ''17_a_b.pdf'', path = In_session ''u1'' ''17_a_b.pdf''\<rparr>,
           \<lparr>originalname = ''notes'', filename = ''18_notes'', path = In_session ''u1'' ''18_notes''\<rparr>],
          Some ''u1'')"
  by (simp add: resolve_files_def two_files_request_def example_cap_def two_files_fs_def
      two_files_session_fs_def uploadIdFromClient_def as_stored_by_multer_def
      move_file_def readFileSync_def unlink_def remove_entry_def put_entry_def Let_def)

lemma two_files_answer:
  "handler example_cap two_files_fs two_files_request =
     Some (Answer ''ok'' [(''a b.pdf'', [(1, Fin 1)]), (''notes'', [(1, Fin 1)])] (Some ''u1''),
           two_files_session_fs)"
proof -
  have a: "process_file example_cap two_files_session_fs ''what is in it'' 0
      \<lparr>originalname = ''a b.pdf'', filename = ''17_a_b.pdf'', path = In_session ''u1'' ''17_a_b.pdf''\<rparr> =
      Some (Inr [\<lparr>pageNumber = 1, page_text = ''text of a'', score = Fin 1\<rparr>])"
    by (rule example_process_file [where buf = "''text of a''"])
      (simp_all add: readFileSync_def two_files_session_fs_def example_texts)
  have b: "process_file example_cap two_files_session_fs ''what is in it'' (Suc 0)
      \<lparr>originalname = ''notes'', filename = ''18_notes'', path = In_session ''u1'' ''18_notes''\<rparr> =
      Some (Inr [\<lparr>pageNumber = 1, page_text = ''text of notes'', score = Fin 1\<rparr>])"
    by (rule example_process_file [where buf = "''text of notes''"])
      (simp_all add: readFileSync_def two_files_session_fs_def example_texts)
  have q: "body_question two_files_request = Some ''what is in it''"
    by (simp add: two_files_request_def)
  have l: "askWithLlama example_cap docs ''what is in it'' = Some ''ok''" for docs
    by (simp add: example_cap_def)
  show ?thesis
    by (simp add: handler_def two_files_resolved q a b l sources_of_def or_null_def)
qed

lemma two_files_stored:
  "multer_store \<lparr>upload_dir = [], sessions = (\<lambda>uploadId. None)\<rparr>
      [(17, ''a b.pdf'', ''text of a''), (18, ''notes'', ''text of notes'')] =
     (two_files_fs, files two_files_request)"
proof -
  have "multer_filename 17 ''a b.pdf'' = ''17_a_b.pdf''" "multer_filename 18 ''notes'' = ''18_notes''"
    by code_simp+
  then show ?thesis
    by (simp add: two_files_fs_def two_files_request_def put_entry_def Let_def)
qed

lemma example_with_id_answer:
  "handler example_cap example_fs example_request_with_id =
     Some (Answer ''ok'' [(''a.pdf'', [(1, Fin 1)])] (Some ''abc''), example_fs)"
proof -
  have r: "resolve_files example_cap example_fs example_request_with_id =
      Inr (example_fs,
           [\<lparr>originalname = ''a.pdf'', filename = ''17_a.pdf'', path = In_upload_dir ''17_a.pdf''\<rparr>],
           Some ''abc'')"
    by (simp add: resolve_files_def example_request_with_id_def uploadIdFromClient_def
        as_stored_by_multer_def example_file_def Let_def)
  have a: "process_file example_cap example_fs ''q'' 0
      \<lparr>originalname = ''a.pdf'', filename = ''17_a.pdf'', path = In_upload_dir ''17_a.pdf''\<rparr> =
      Some (Inr [\<lparr>pageNumber = 1, page_text = ''text of a'', score = Fin 1\<rparr>])"
    by (rule example_process_file [where buf = "''text of a''"])
      (simp_all add: readFileSync_def example_fs_def example_texts)
  have q: "body_question example_request_with_id = Some ''q''"
    by (simp add: example_request_with_id_def)
  have l: "askWithLlama example_cap docs ''q'' = Some ''ok''" for docs
    by (simp add: example_cap_def)
  show ?thesis
    by (simp add: handler_def r q a l sources_of_def or_null_def)
qed

text \<open>
  Claim C4 as stated fails. The files \<open>a b.pdf\<close> and \<open>notes\<close> are uploaded and answered
  under these names with the upload id \<open>u1\<close>; the follow-up with \<open>u1\<close> resolves to the
  one name \<open>a_b.pdf\<close>. And a first request that sends a file together with the upload id
  \<open>abc\<close> is answered with \<open>abc\<close>, under which the follow-up finds no file.
\<close>

theorem follow_up_display_names_counterexample:
  "multer_store \<lparr>upload_dir = [], sessions = (\<lambda>uploadId. None)\<rparr>
      [(17, ''a b.pdf'', ''text of a''), (18, ''notes'', ''text of notes'')] =
     (two_files_fs, files two_files_request)
   \<and> handler example_cap two_files_fs two_files_request =
       Some (Answer ''ok'' [(''a b.pdf'', [(1, Fin 1)]), (''notes'', [(1, Fin 1)])] (Some ''u1''),
             two_files_session_fs)
   \<and> resolve_files example_cap two_files_session_fs follow_up_request =
       Inr (two_files_session_fs,
            [\<lparr>originalname = ''a_b.pdf'', filename = ''17_a_b.pdf'',
              path = In_session ''u1'' ''17_a_b.pdf''\<rparr>],
            Some ''u1'')
   \<and> handler example_cap example_fs example_request_with_id =
       Some (Answer ''ok'' [(''a.pdf'', [(1, Fin 1)])] (Some ''abc''), example_fs)
   \<and> resolve_files example_cap example_fs
        \<lparr>files = [], body_uploadId = Some ''abc'', body_question = Some ''and what else''\<rparr> =
       Inr (example_fs, [], Some ''abc'')"
proof -
  have "is_pdf_name ''17_a_b.pdf''" "\<not> is_pdf_name ''18_notes''"
    by code_simp+
  moreover have "strip_timestamp ''17_a_b.pdf'' = ''a_b.pdf''"
    by code_simp
  ultimately have "resolve_files example_cap two_files_session_fs follow_up_request =
       Inr (two_files_session_fs,
            [\<lparr>originalname = ''a_b.pdf'', filename = ''17_a_b.pdf'',
              path = In_session ''u1'' ''17_a_b.pdf''\<rparr>],
            Some ''u1'')"
    by (simp add: resolve_files_def follow_up_request_def uploadIdFromClient_def
        two_files_session_fs_def stored_file_def)
  moreover have "resolve_files example_cap example_fs
        \<lparr>files = [], body_uploadId = Some ''abc'', body_question = Some ''and what else''\<rparr> =
       Inr (example_fs, [], Some ''abc'')"
    by (simp add: resolve_files_def uploadIdFromClient_def example_fs_def)
  ultimately show ?thesis
    using two_files_stored two_files_answer example_with_id_answer by simp
qed

theorem follow_up_display_names_witness:
  "multer_store \<lparr>upload_dir = [], sessions = (\<lambda>uploadId. None)\<rparr>
      [(17, ''a b.pdf'', ''text of a''), (18, ''notes'', ''text of notes'')] =
     (two_files_fs, files two_files_request)
   \<and> uploadIdFromClient two_files_request = None
   \<and> sessions two_files_fs (randomUUID example_cap) = None
   \<and> handler example_cap two_files_fs two_files_request =
       Some (Answer ''ok'' [(''a b.pdf'', [(1, Fin 1)]), (''notes'', [(1, Fin 1)])] (Some ''u1''),
             two_files_session_fs)
   \<and> files follow_up_request = [] \<and> body_uploadId follow_up_request = Some ''u1''
   \<and> {''a b.pdf'', ''notes''} =
       uploaded_names [(17, ''a b.pdf'', ''text of a''), (18, ''notes'', ''text of notes'')]
   \<and> (\<exists>fs2. resolve_files example_cap two_files_session_fs follow_up_request =
           Inr (two_files_session_fs, fs2, Some ''u1'')
         \<and> originalname ` set fs2 =
           {n \<in> sanitize ` uploaded_names
              [(17, ''a b.pdf'', ''text of a''), (18, ''notes'', ''text of notes'')]. is_pdf_name n})"
proof -
  have h2: "uploadIdFromClient two_files_request = None"
    by (simp add: two_files_request_def uploadIdFromClient_def)
  have h3: "sessions two_files_fs (randomUUID example_cap) = None"
    by (simp add: two_files_fs_def)
  have h5: "files follow_up_request = []" by (simp add: follow_up_request_def)
  have h6: "body_uploadId follow_up_request = Some ''u1''" by (simp add: follow_up_request_def)
  show ?thesis
    using follow_up_display_names [OF two_files_stored h2 h3 two_files_answer h5 h6, of example_cap]
      two_files_stored h2 h3 two_files_answer h5 h6
    by auto
qed

end
